theory Spec2Isabelle
  imports Complex_Main "HOL-Library.Word" "HOL-Library.Multiset"
begin

section \<open>Data model of the modified-base caller node\<close>

text \<open>
  The development follows \<^verbatim>\<open>src/dorado/read_pipeline/ModBaseCallerNode.cpp\<close>.
  Sizes, counters and indices (\<^verbatim>\<open>size_t\<close>, \<^verbatim>\<open>int64_t\<close>) are natural numbers: every
  value the node computes is a buffer index or a count of objects held in memory, far
  below \<open>2^63\<close>. Chunk scores are \<^verbatim>\<open>float\<close> in the source and real numbers here; the only
  arithmetic done on them (a multiplication by the power of two 256, \<^verbatim>\<open>floor\<close>, \<^verbatim>\<open>min\<close>)
  is exact on every finite float whose product does not overflow.
\<close>

type_synonym byte = "8 word"

datatype error =
    Invalid_base_in_remora_model_metadata
  | Invalid_character_in_sequence
  | Out_of_range_access
  | Float_conversion_out_of_range
  | Division_by_zero

text \<open>
  What one atomic action of a thread can do: move to a next state, stay blocked on a
  condition variable (the action is not enabled), or throw with the state reached at
  the \<^verbatim>\<open>throw\<close>.
\<close>

datatype 'a outcome = Next 'a | Blocked | Threw error 'a

text \<open>
  Modelled from the spec: the table \<^verbatim>\<open>RemoraUtils::BASE_IDS\<close> is declared in
  \<^verbatim>\<open>modbase/remora_utils.h\<close>, which is not among the sources. The alphabet is
  \<open>{A, C, G, T}\<close>; the node pairs index \<open>b\<close> with \<^verbatim>\<open>allowed_bases[b]\<close> of \<^verbatim>\<open>"ACGT"\<close> and
  treats a negative entry as an invalid character.
\<close>

definition BASE_IDS :: "char \<Rightarrow> int" where
  "BASE_IDS c =
     (if c = CHR ''A'' then 0 else if c = CHR ''C'' then 1
      else if c = CHR ''G'' then 2 else if c = CHR ''T'' then 3 else - 1)"

definition allowed_bases :: string where
  "allowed_bases = ''ACGT''"

text \<open>
  Modelled from the spec: the \<^verbatim>\<open>Read\<close> record is declared outside the sources. The
  fields the node touches are kept; the result buffer \<^verbatim>\<open>base_mod_probs\<close> holds bytes
  (the node casts to \<^verbatim>\<open>uint8_t\<close> on every chunk write).
\<close>

record Read =
  seq :: string
  base_mod_probs :: "byte list"
  num_modbase_chunks :: nat
  num_modbase_chunks_called :: nat

text \<open>
  A chunk refers to its read by the read's index in the store of reads (the weak
  pointer \<^verbatim>\<open>source_read\<close>). The signal window and the encoded k-mers only feed the
  inference engine and are left out.
\<close>

record RemoraChunk =
  source_read :: nat
  context_hit :: nat
  scores :: "real list"

subsection \<open>The byte written for a score\<close>

text \<open>
  \<^verbatim>\<open>uint8_t(std::min(std::floor(chunk->scores[i] * 256), 255.0f))\<close>. Converting a
  negative float to \<^verbatim>\<open>uint8_t\<close> is undefined in C++: \<open>None\<close>.
\<close>

definition quantise_score :: "real \<Rightarrow> byte option" where
  "quantise_score score =
     (let v = min (real_of_int \<lfloor>score * 256\<rfloor>) 255
      in if v < 0 then None else Some (word_of_int \<lfloor>v\<rfloor>))"

text \<open>
  The inner loop of \<^verbatim>\<open>output_worker_thread\<close> (lines 360-363): element \<open>i\<close> of the
  chunk's scores goes to index \<open>m_num_states * result_pos + offset + i\<close>. The first
  argument is that index for the head of the remaining scores. A write past the end
  of the vector is undefined in C++.
\<close>

fun write_scores :: "nat \<Rightarrow> real list \<Rightarrow> byte list \<Rightarrow> error + byte list" where
  "write_scores idx [] probs = Inr probs"
| "write_scores idx (x # xs) probs =
     (if idx < length probs then
        (case quantise_score x of
           None \<Rightarrow> Inl Float_conversion_out_of_range
         | Some b \<Rightarrow> write_scores (Suc idx) xs (probs[idx := b]))
      else Inl Out_of_range_access)"

subsection \<open>Model metadata and the class layout\<close>

text \<open>
  Modelled from the spec: \<^verbatim>\<open>BaseModParams\<close> is declared outside the sources; these are
  the fields \<^verbatim>\<open>get_modbase_info_and_maybe_init\<close> reads.
\<close>

record BaseModParams =
  motif :: string
  motif_offset :: nat
  mod_bases :: string
  mod_long_names :: "string list"
  base_mod_count :: nat

text \<open>The local struct \<^verbatim>\<open>ModelInfo\<close> (lines 72-78) and the returned \<^verbatim>\<open>Info\<close>.\<close>

record ModelInfo =
  long_names :: "string list"
  alphabet :: string
  mi_motif :: string
  mi_motif_offset :: nat
  base_counts :: nat

record Info =
  info_long_names :: string
  info_alphabet :: string

text \<open>
  \<^verbatim>\<open>params.motif[params.motif_offset]\<close>: \<^verbatim>\<open>std::string::operator[]\<close> at the string's
  size yields the null character, beyond it the access is undefined.
\<close>

definition motif_base :: "BaseModParams \<Rightarrow> char option" where
  "motif_base params =
     (if motif_offset params < length (motif params) then Some (motif params ! motif_offset params)
      else if motif_offset params = length (motif params) then Some (CHR 0x00)
      else None)"

text \<open>Lines 80-84: one entry per canonical base, \<^verbatim>\<open>base_counts = 1\<close>.\<close>

definition initial_model_info :: "ModelInfo list" where
  "initial_model_info =
     map (\<lambda>b. \<lparr>long_names = [], alphabet = [allowed_bases ! b], mi_motif = [],
               mi_motif_offset = 0, base_counts = 1\<rparr>) [0..<4]"

text \<open>
  The loop of lines 86-101 over the models' parameters. The flag says whether a node
  is given (\<^verbatim>\<open>node != nullptr\<close>); the second component of the accumulator is the
  node's \<^verbatim>\<open>m_num_states\<close>.
\<close>

fun collect_model_info ::
  "bool \<Rightarrow> BaseModParams list \<Rightarrow> ModelInfo list \<times> nat \<Rightarrow> error + (ModelInfo list \<times> nat)" where
  "collect_model_info node [] acc = Inr acc"
| "collect_model_info node (params # rest) (model_info, n_states) =
     (case motif_base params of
        None \<Rightarrow> Inl Out_of_range_access
      | Some base \<Rightarrow>
          if base \<notin> set allowed_bases then Inl Invalid_base_in_remora_model_metadata
          else
            let b = nat (BASE_IDS base);
                e0 = model_info ! b;
                e1 = e0\<lparr>long_names := mod_long_names params,
                        alphabet := alphabet e0 @ mod_bases params\<rparr>;
                e2 = (if node
                      then e1\<lparr>mi_motif := motif params, mi_motif_offset := motif_offset params,
                              base_counts := base_mod_count params + 1\<rparr>
                      else e1)
            in collect_model_info node rest
                 (model_info[b := e2],
                  if node then n_states + base_mod_count params else n_states))"

text \<open>Lines 105-111: the names joined by blanks, the alphabets concatenated.\<close>

fun join_names :: "string \<Rightarrow> string list \<Rightarrow> string" where
  "join_names acc [] = acc"
| "join_names acc (name # names) =
     join_names ((if acc \<noteq> [] then acc @ '' '' else acc) @ name) names"

fun collect_info :: "Info \<Rightarrow> ModelInfo list \<Rightarrow> Info" where
  "collect_info result [] = result"
| "collect_info result (info # infos) =
     collect_info
       \<lparr>info_long_names = join_names (info_long_names result) (long_names info),
        info_alphabet = info_alphabet result @ alphabet info\<rparr> infos"

text \<open>Lines 121-124: the offset of each base's classes in one position's block.\<close>

definition base_prob_offsets_of :: "ModelInfo list \<Rightarrow> nat list" where
  "base_prob_offsets_of model_info =
     (let o0 = 0;
          o1 = base_counts (model_info ! 0);
          o2 = o1 + base_counts (model_info ! 1);
          o3 = o2 + base_counts (model_info ! 2)
      in [o0, o1, o2, o3])"

text \<open>
  \<^verbatim>\<open>get_modbase_info_and_maybe_init\<close> called with a node, as \<^verbatim>\<open>init_modbase_info\<close>
  does. The argument \<open>n_states\<close> is the value of \<^verbatim>\<open>m_num_states\<close> before the call (its
  initialiser is in the header, which is not among the sources). The result is the
  returned \<^verbatim>\<open>Info\<close>, the final table of model infos, and the node's \<^verbatim>\<open>m_num_states\<close>
  and \<^verbatim>\<open>m_base_prob_offsets\<close>.
\<close>

definition get_modbase_info_and_maybe_init ::
  "BaseModParams list \<Rightarrow> nat \<Rightarrow> error + (Info \<times> ModelInfo list \<times> nat \<times> nat list)" where
  "get_modbase_info_and_maybe_init base_mod_params n_states =
     (case collect_model_info True base_mod_params (initial_model_info, n_states) of
        Inl e \<Rightarrow> Inl e
      | Inr (model_info, n) \<Rightarrow>
          Inr (collect_info \<lparr>info_long_names = [], info_alphabet = []\<rparr> model_info,
               model_info, n, base_prob_offsets_of model_info))"

subsection \<open>Initialising a read's result buffer\<close>

text \<open>\<^verbatim>\<open>std::vector::resize(n, v)\<close>: existing elements are kept, new ones are \<open>v\<close>.\<close>

definition resize :: "nat \<Rightarrow> 'a \<Rightarrow> 'a list \<Rightarrow> 'a list" where
  "resize n v xs = take n xs @ replicate (n - length xs) v"

text \<open>
  The loop of lines 161-168 over the positions of the sequence, from position \<open>i\<close>
  on. It returns the buffer as the loop leaves it, and the exception if it throws.
  The value stored is the float \<open>1.0f\<close> converted to the buffer's element type.
\<close>

fun init_canonical ::
  "nat \<Rightarrow> nat list \<Rightarrow> string \<Rightarrow> nat \<Rightarrow> byte list \<Rightarrow> byte list \<times> error option" where
  "init_canonical n_states offsets [] i probs = (probs, None)"
| "init_canonical n_states offsets (c # cs) i probs =
     (let base_id = BASE_IDS c
      in if base_id < 0 then (probs, Some Invalid_character_in_sequence)
         else
           let idx = i * n_states + offsets ! nat base_id
           in if idx < length probs
              then init_canonical n_states offsets cs (Suc i) (probs[idx := 1])
              else (probs, Some Out_of_range_access))"

definition base_mod_probs_init :: "nat \<Rightarrow> nat list \<Rightarrow> Read \<Rightarrow> byte list \<times> error option" where
  "base_mod_probs_init n_states offsets read =
     init_canonical n_states offsets (seq read) 0
       (resize (length (seq read) * n_states) 0 (base_mod_probs read))"

section \<open>The bounded channel\<close>

text \<open>
  Modelled from the spec: \<^verbatim>\<open>utils/AsyncQueue.h\<close> is not among the sources (only its
  test \<^verbatim>\<open>src/tests/AsyncQueueTest.cpp\<close> is). A channel has a fixed capacity, its buffered
  items in arrival order, and a termination flag.
\<close>

record 'a AsyncQueue =
  items :: "'a list"
  capacity :: nat
  terminated :: bool

definition new_queue :: "nat \<Rightarrow> 'a AsyncQueue" where
  "new_queue n = \<lparr>items = [], capacity = n, terminated = False\<rparr>"

text \<open>
  Modelled from the spec: the non-blocking attempt ``fails (returns false, item not
  enqueued) if the channel has been terminated or is full''.
\<close>

definition try_push :: "'a \<Rightarrow> 'a AsyncQueue \<Rightarrow> bool \<times> 'a AsyncQueue" where
  "try_push item q =
     (if terminated q \<or> capacity q \<le> length (items q) then (False, q)
      else (True, q\<lparr>items := items q @ [item]\<rparr>))"

text \<open>
  Modelled from the spec: ``a blocking push suspends the calling thread until space is
  available or termination occurs''.
\<close>

definition push :: "'a \<Rightarrow> 'a AsyncQueue \<Rightarrow> (bool \<times> 'a AsyncQueue) outcome" where
  "push item q =
     (if terminated q then Next (False, q)
      else if capacity q \<le> length (items q) then Blocked
      else Next (True, q\<lparr>items := items q @ [item]\<rparr>))"

text \<open>
  Modelled from the spec: \<^verbatim>\<open>try_pop\<close> ``blocks until an item is available or
  termination occurs; returns nothing and unblocks immediately if termination is
  signaled and no items remain''.
\<close>

definition try_pop :: "'a AsyncQueue \<Rightarrow> ('a option \<times> 'a AsyncQueue) outcome" where
  "try_pop q =
     (case items q of
        x # xs \<Rightarrow> Next (Some x, q\<lparr>items := xs\<rparr>)
      | [] \<Rightarrow> if terminated q then Next (None, q) else Blocked)"

definition terminate :: "'a AsyncQueue \<Rightarrow> 'a AsyncQueue" where
  "terminate q = q\<lparr>terminated := True\<rparr>"

text \<open>A sequence of \<^verbatim>\<open>try_push\<close> calls and a sequence of \<open>n\<close> \<^verbatim>\<open>try_pop\<close> calls.\<close>

fun push_all :: "'a list \<Rightarrow> 'a AsyncQueue \<Rightarrow> bool list \<times> 'a AsyncQueue" where
  "push_all [] q = ([], q)"
| "push_all (x # xs) q =
     (let (ok, q1) = try_push x q; (oks, q2) = push_all xs q1 in (ok # oks, q2))"

fun pop_n :: "nat \<Rightarrow> 'a AsyncQueue \<Rightarrow> ('a option list \<times> 'a AsyncQueue) outcome" where
  "pop_n 0 q = Next ([], q)"
| "pop_n (Suc n) q =
     (case try_pop q of
        Next (r, q1) \<Rightarrow>
          (case pop_n n q1 of
             Next (rs, q2) \<Rightarrow> Next (r # rs, q2)
           | Blocked \<Rightarrow> Blocked
           | Threw e q2 \<Rightarrow> Threw e (r # fst q2, snd q2))
      | Blocked \<Rightarrow> Blocked
      | Threw e q1 \<Rightarrow> Threw e ([fst q1], snd q1))"

section \<open>The node as a system of threads\<close>

text \<open>
  The node runs \<^verbatim>\<open>remora_threads * num_devices\<close> runner threads (the expander), one
  caller thread per model caller (the dispatchers) and one output thread (the
  aggregator). The model is an interleaving of atomic actions on one shared state; an
  action is what a thread does between two points where it touches state shared with
  another thread, and every access to shared state is under the mutex the source
  takes for it.
\<close>

text \<open>
  A waiting thread is modelled by its action not being enabled while the predicate of
  its wait is false; notifications are not modelled. The messages of the work queue
  are reads, each given by its index in the store of reads. Modelled from the spec:
  \<^verbatim>\<open>MessageSink\<close> is declared outside the sources; the node's own input is a bounded
  channel of capacity \<^verbatim>\<open>max_reads\<close>, and of the downstream sink the model records the
  reads pushed to it, in order, and whether it has been terminated. Scaling the signal
  and cutting the signal window of a chunk belong to the inference engine and are left
  out.
\<close>

text \<open>
  What the constructor fixes. \<open>get_motif_hits\<close> stands for
  \<^verbatim>\<open>m_callers[caller_id]->get_motif_hits\<close>, part of the external inference engine.
\<close>

record config =
  num_devices :: nat
  batch_size :: nat
  num_callers :: nat
  remora_threads :: nat
  max_reads :: nat
  num_states :: nat
  base_prob_offsets :: "nat list"
  get_motif_hits :: "nat \<Rightarrow> string \<Rightarrow> nat list"

definition num_models :: "config \<Rightarrow> nat" where
  "num_models cfg = num_callers cfg div num_devices cfg"

definition FORCE_TIMEOUT :: nat where
  "FORCE_TIMEOUT = 100"

text \<open>
  Where a runner thread is in \<^verbatim>\<open>runner_worker_thread\<close>: at \<^verbatim>\<open>try_pop\<close> (line 140), at
  the wait for queue space with a read in hand (line 154), in the loop over the
  callers at a given \<^verbatim>\<open>caller_id\<close> (line 178; at \<open>num_models\<close> the loop is over and the
  read is about to be put in the working set or forwarded), or returned.
\<close>

datatype runner_pc = R_pop | R_wait_queues nat | R_generate nat nat | R_exited

text \<open>
  Where the output thread is in \<^verbatim>\<open>output_worker_thread\<close>: at the wait of line 347, at
  the scan of the working set (line 371), or returned.
\<close>

datatype output_pc = O_wait | O_scan | O_exited

text \<open>The result of \<^verbatim>\<open>call_chunks\<close>: contiguous rows of \<open>row_size\<close> floats.\<close>

record tensor =
  row_size :: nat
  data :: "real list"

record node =
  work_queue :: "nat AsyncQueue"
  reads :: "Read list"
  chunk_queues :: "RemoraChunk list list"
  batched_chunks :: "RemoraChunk list list"
  processed_chunks :: "RemoraChunk list"
  working_reads :: "nat list"
  num_active_model_runners :: int
  num_active_model_callers :: int
  terminate_callers :: bool
  terminate_output :: bool
  sink_messages :: "nat list"
  sink_terminated :: bool
  runner_pc :: "runner_pc list"
  caller_exited :: "bool list"
  last_chunk_reserve_time :: "nat list"
  output_pc :: output_pc

text \<open>
  The state once the constructor has returned: all threads started, both counters of
  active threads at their final values, nothing queued.
\<close>

definition initial_node :: "config \<Rightarrow> node" where
  "initial_node cfg =
     \<lparr>work_queue = new_queue (max_reads cfg),
      reads = [],
      chunk_queues = replicate (num_models cfg) [],
      batched_chunks = replicate (num_callers cfg) [],
      processed_chunks = [],
      working_reads = [],
      num_active_model_runners = int (remora_threads cfg * num_devices cfg),
      num_active_model_callers = int (num_callers cfg),
      terminate_callers = False,
      terminate_output = False,
      sink_messages = [],
      sink_terminated = False,
      runner_pc = replicate (remora_threads cfg * num_devices cfg) R_pop,
      caller_exited = replicate (num_callers cfg) False,
      last_chunk_reserve_time = replicate (num_callers cfg) 0,
      output_pc = O_wait\<rparr>"

text \<open>
  The constructor (lines 21-56) with \<^verbatim>\<open>init_modbase_info\<close> (lines 130-136): the
  parameters of the first \<open>size / num_devices\<close> callers are handed to
  \<^verbatim>\<open>get_modbase_info_and_maybe_init\<close>. \<open>n_states\<close> is the initial \<^verbatim>\<open>m_num_states\<close>.
\<close>

definition ModBaseCallerNode ::
  "BaseModParams list \<Rightarrow> (nat \<Rightarrow> string \<Rightarrow> nat list) \<Rightarrow> nat \<Rightarrow> nat \<Rightarrow> nat \<Rightarrow> nat \<Rightarrow> nat \<Rightarrow>
     error + (config \<times> node)" where
  "ModBaseCallerNode callers_params hits n_threads n_devices n_batch n_reads n_states =
     (if n_devices = 0 then Inl Division_by_zero
      else
        case get_modbase_info_and_maybe_init
               (take (length callers_params div n_devices) callers_params) n_states of
          Inl e \<Rightarrow> Inl e
        | Inr (info, model_info, n, offsets) \<Rightarrow>
            let cfg = \<lparr>num_devices = n_devices, batch_size = n_batch,
                       num_callers = length callers_params, remora_threads = n_threads,
                       max_reads = n_reads, num_states = n, base_prob_offsets = offsets,
                       get_motif_hits = hits\<rparr>
            in Inr (cfg, initial_node cfg))"

subsection \<open>The runner threads\<close>

text \<open>The predicate of the wait of lines 146-154, with \<^verbatim>\<open>max_chunks_in = m_batch_size * 5\<close>.\<close>

definition max_chunks_in :: "config \<Rightarrow> nat" where
  "max_chunks_in cfg = batch_size cfg * 5"

definition chunk_queues_available :: "config \<Rightarrow> node \<Rightarrow> bool" where
  "chunk_queues_available cfg s =
     list_all (\<lambda>queue. length queue < max_chunks_in cfg) (chunk_queues s)"

text \<open>
  Lines 154-177: once the queues have room, the result buffer is initialised and both
  chunk counters are reset. Only the read is written, and no other thread holds it.
\<close>

definition runner_init_read :: "config \<Rightarrow> nat \<Rightarrow> nat \<Rightarrow> node \<Rightarrow> node outcome" where
  "runner_init_read cfg i r s =
     (let read = reads s ! r;
          (probs, err) = base_mod_probs_init (num_states cfg) (base_prob_offsets cfg) read;
          s1 = s\<lparr>reads := (reads s)[r := read\<lparr>base_mod_probs := probs\<rparr>]\<rparr>
      in case err of
           Some e \<Rightarrow> Threw e s1
         | None \<Rightarrow>
             Next (s1\<lparr>reads := (reads s1)[r := (reads s1 ! r)\<lparr>num_modbase_chunks := 0,
                                                               num_modbase_chunks_called := 0\<rparr>],
                       runner_pc := (runner_pc s1)[i := R_generate r 0]\<rparr>))"

text \<open>
  One pass of the loop of lines 178-218: a chunk for every motif hit, the read's
  counter of issued chunks raised by their number, and the chunks appended to the
  caller's queue under the mutex.
\<close>

definition runner_generate_chunks :: "config \<Rightarrow> nat \<Rightarrow> nat \<Rightarrow> nat \<Rightarrow> node \<Rightarrow> node" where
  "runner_generate_chunks cfg i r caller_id s =
     (let read = reads s ! r;
          context_hits = get_motif_hits cfg caller_id (seq read);
          reads_to_enqueue =
            map (\<lambda>hit. \<lparr>source_read = r, context_hit = hit, scores = []\<rparr>) context_hits
      in s\<lparr>reads := (reads s)[r := read\<lparr>num_modbase_chunks :=
                                          num_modbase_chunks read + length context_hits\<rparr>],
            chunk_queues := (chunk_queues s)[caller_id :=
                               chunk_queues s ! caller_id @ reads_to_enqueue],
            runner_pc := (runner_pc s)[i := R_generate r (Suc caller_id)]\<rparr>)"

text \<open>Lines 220-228: into the working set, or straight to the sink.\<close>

definition runner_finish_read :: "nat \<Rightarrow> nat \<Rightarrow> node \<Rightarrow> node" where
  "runner_finish_read i r s =
     (if num_modbase_chunks (reads s ! r) \<noteq> 0
      then s\<lparr>working_reads := working_reads s @ [r], runner_pc := (runner_pc s)[i := R_pop]\<rparr>
      else s\<lparr>sink_messages := sink_messages s @ [r], runner_pc := (runner_pc s)[i := R_pop]\<rparr>)"

text \<open>Lines 232-236: the thread leaves; the last one tells the callers to terminate.\<close>

definition runner_exit :: "nat \<Rightarrow> node \<Rightarrow> node" where
  "runner_exit i s =
     (let num_remaining_runners = num_active_model_runners s - 1
      in s\<lparr>num_active_model_runners := num_remaining_runners,
            terminate_callers := (if num_remaining_runners = 0 then True else terminate_callers s),
            runner_pc := (runner_pc s)[i := R_exited]\<rparr>)"

definition runner_worker_step :: "config \<Rightarrow> nat \<Rightarrow> node \<Rightarrow> node outcome" where
  "runner_worker_step cfg i s =
     (if length (runner_pc s) \<le> i then Blocked
      else
        case runner_pc s ! i of
          R_exited \<Rightarrow> Blocked
        | R_pop \<Rightarrow>
            (case try_pop (work_queue s) of
               Next (Some r, q) \<Rightarrow>
                 Next (s\<lparr>work_queue := q, runner_pc := (runner_pc s)[i := R_wait_queues r]\<rparr>)
             | Next (None, q) \<Rightarrow> Next (runner_exit i s)
             | Blocked \<Rightarrow> Blocked
             | Threw e q \<Rightarrow> Threw e s)
        | R_wait_queues r \<Rightarrow>
            if chunk_queues_available cfg s then runner_init_read cfg i r s else Blocked
        | R_generate r caller_id \<Rightarrow>
            if caller_id < num_models cfg then Next (runner_generate_chunks cfg i r caller_id s)
            else Next (runner_finish_read i r s))"

subsection \<open>The caller threads\<close>

text \<open>Row \<open>i\<close> of the result: \<^verbatim>\<open>&results_f32_ptr[i * row_size]\<close>, \<open>row_size\<close> floats.\<close>

definition tensor_row :: "tensor \<Rightarrow> nat \<Rightarrow> real list" where
  "tensor_row results i = take (row_size results) (drop (i * row_size results) (data results))"

text \<open>
  The loop of lines 330-335 from slot \<open>i\<close> on: the chunk gets row \<open>i\<close> as its scores
  and is appended to \<^verbatim>\<open>m_processed_chunks\<close>.
\<close>

fun put_results :: "tensor \<Rightarrow> nat \<Rightarrow> RemoraChunk list \<Rightarrow> RemoraChunk list \<Rightarrow> RemoraChunk list" where
  "put_results results i [] processed = processed"
| "put_results results i (chunk # batch) processed =
     put_results results (Suc i) batch (processed @ [chunk\<lparr>scores := tensor_row results i\<rparr>])"

text \<open>
  \<^verbatim>\<open>call_current_batch\<close> (lines 314-341). The engine is to return one row per slot;
  a result with fewer floats makes the \<^verbatim>\<open>memcpy\<close> read past its end.
\<close>

definition call_current_batch :: "nat \<Rightarrow> tensor \<Rightarrow> node \<Rightarrow> node outcome" where
  "call_current_batch caller_id results s =
     (let batch = batched_chunks s ! caller_id
      in if length (data results) < length batch * row_size results
         then Threw Out_of_range_access s
         else Next (s\<lparr>processed_chunks := put_results results 0 batch (processed_chunks s),
                      batched_chunks := (batched_chunks s)[caller_id := []]\<rparr>))"

text \<open>The loop of lines 288-293, moving chunks from the queue's front into the batch.\<close>

fun push_chunks ::
  "nat \<Rightarrow> RemoraChunk list \<Rightarrow> RemoraChunk list \<Rightarrow> RemoraChunk list \<times> RemoraChunk list" where
  "push_chunks n batched [] = (batched, [])"
| "push_chunks n batched (chunk # queue) =
     (if length batched \<noteq> n then push_chunks n (batched @ [chunk]) queue
      else (batched, chunk # queue))"

text \<open>Lines 261-276: flush what is held, then leave; the last caller tells the output thread.\<close>

definition caller_exit :: "nat \<Rightarrow> node \<Rightarrow> node" where
  "caller_exit caller_id s =
     (let num_remaining_callers = num_active_model_callers s - 1
      in s\<lparr>num_active_model_callers := num_remaining_callers,
            terminate_output := (if num_remaining_callers = 0 then True else terminate_output s),
            caller_exited := (caller_exited s)[caller_id := True]\<rparr>)"

text \<open>
  One pass of the loop of \<^verbatim>\<open>caller_worker_thread\<close> (lines 247-311). \<open>now\<close> is the
  time at which the wait of line 250 returns, in milliseconds, and the time
  \<^verbatim>\<open>system_clock::now()\<close> gives during the pass; \<open>results\<close> is what the engine returns
  if the pass scores a batch. The wait returns \<^verbatim>\<open>false\<close> only at its deadline
  \<^verbatim>\<open>last_chunk_reserve_time + FORCE_TIMEOUT\<close>, with its predicate still false.
  Between taking chunks (under the mutex of the queues) and appending the scored chunks
  (under the mutex of the processed chunks) the thread touches only its own batch and
  the engine, so the pass is taken as one action.
\<close>

definition caller_worker_iteration ::
  "config \<Rightarrow> nat \<Rightarrow> nat \<Rightarrow> tensor \<Rightarrow> node \<Rightarrow> node outcome" where
  "caller_worker_iteration cfg caller_id now results s =
     (if num_callers cfg \<le> caller_id \<or> length (caller_exited s) \<le> caller_id
         \<or> caller_exited s ! caller_id then Blocked
      else if num_models cfg = 0 then Threw Division_by_zero s
      else
        let qid = caller_id mod num_models cfg;
            chunk_queue = chunk_queues s ! qid;
            batched = batched_chunks s ! caller_id
        in if \<not> (chunk_queue \<noteq> [] \<or> terminate_callers s) then
             (if now < last_chunk_reserve_time s ! caller_id + FORCE_TIMEOUT then Blocked
              else if batched \<noteq> [] then call_current_batch caller_id results s
              else Next s)
           else if chunk_queue = [] \<and> terminate_callers s then
             (case (if batched \<noteq> [] then call_current_batch caller_id results s else Next s) of
                Next s1 \<Rightarrow> Next (caller_exit caller_id s1)
              | Blocked \<Rightarrow> Blocked
              | Threw e s1 \<Rightarrow> Threw e s1)
           else
             let (batched', queue') = push_chunks (batch_size cfg) batched chunk_queue;
                 s1 = s\<lparr>chunk_queues := (chunk_queues s)[qid := queue'],
                        batched_chunks := (batched_chunks s)[caller_id := batched'],
                        last_chunk_reserve_time :=
                          (if length batched' \<noteq> length batched
                           then (last_chunk_reserve_time s)[caller_id := now]
                           else last_chunk_reserve_time s)\<rparr>
             in if length batched' = batch_size cfg
                then call_current_batch caller_id results s1
                else Next s1)"

subsection \<open>The output thread\<close>

text \<open>
  The body of the loop of lines 355-365 for one chunk. Reading the sequence or the
  offset table out of range, like writing past the buffer, is undefined in C++.
\<close>

definition apply_chunk :: "config \<Rightarrow> RemoraChunk \<Rightarrow> Read list \<Rightarrow> error + Read list" where
  "apply_chunk cfg chunk rs =
     (if length rs \<le> source_read chunk then Inl Out_of_range_access
      else
        let read = rs ! source_read chunk;
            result_pos = context_hit chunk
        in if length (seq read) \<le> result_pos then Inl Out_of_range_access
           else
             let base_id = BASE_IDS (seq read ! result_pos)
             in if base_id < 0 \<or> int (length (base_prob_offsets cfg)) \<le> base_id
                then Inl Out_of_range_access
                else
                  let offset = base_prob_offsets cfg ! nat base_id
                  in case write_scores (num_states cfg * result_pos + offset) (scores chunk)
                            (base_mod_probs read) of
                       Inl e \<Rightarrow> Inl e
                     | Inr probs \<Rightarrow>
                         Inr (rs[source_read chunk :=
                                   read\<lparr>base_mod_probs := probs,
                                        num_modbase_chunks_called :=
                                          num_modbase_chunks_called read + 1\<rparr>]))"

fun apply_chunks :: "config \<Rightarrow> RemoraChunk list \<Rightarrow> Read list \<Rightarrow> error + Read list" where
  "apply_chunks cfg [] rs = Inr rs"
| "apply_chunks cfg (chunk # chunks) rs =
     (case apply_chunk cfg chunk rs of
        Inl e \<Rightarrow> Inl e
      | Inr rs' \<Rightarrow> apply_chunks cfg chunks rs')"

text \<open>
  The scan of lines 372-380 over the working set: the reads that stay, and the reads
  pushed to the sink, in scan order.
\<close>

fun forward_completed :: "Read list \<Rightarrow> nat list \<Rightarrow> nat list \<times> nat list" where
  "forward_completed rs [] = ([], [])"
| "forward_completed rs (r # working) =
     (let (kept, pushed) = forward_completed rs working
      in if num_modbase_chunks_called (rs ! r) = num_modbase_chunks (rs ! r)
         then (kept, r # pushed) else (r # kept, pushed))"

definition output_worker_step :: "config \<Rightarrow> node \<Rightarrow> node outcome" where
  "output_worker_step cfg s =
     (case output_pc s of
        O_exited \<Rightarrow> Blocked
      | O_wait \<Rightarrow>
          if \<not> (processed_chunks s \<noteq> [] \<or> terminate_output s) then Blocked
          else if terminate_output s \<and> processed_chunks s = []
          then Next (s\<lparr>sink_terminated := True, output_pc := O_exited\<rparr>)
          else
            (case apply_chunks cfg (processed_chunks s) (reads s) of
               Inl e \<Rightarrow> Threw e s
             | Inr rs \<Rightarrow> Next (s\<lparr>reads := rs, processed_chunks := [], output_pc := O_scan\<rparr>))
      | O_scan \<Rightarrow>
          let (kept, pushed) = forward_completed (reads s) (working_reads s)
          in Next (s\<lparr>working_reads := kept, sink_messages := sink_messages s @ pushed,
                     output_pc := O_wait\<rparr>))"

subsection \<open>The environment and the interleaving\<close>

text \<open>
  The upstream stage hands in a new read (\<^verbatim>\<open>push_message\<close>), here with its sequence,
  or terminates the node's input; a thread of the node takes its next action.
\<close>

datatype event =
    Push_message string
  | Terminate
  | Runner nat
  | Caller nat nat tensor
  | Output

definition push_message :: "string \<Rightarrow> node \<Rightarrow> node outcome" where
  "push_message sequence s =
     (case push (length (reads s)) (work_queue s) of
        Next (ok, q) \<Rightarrow>
          if ok
          then Next (s\<lparr>work_queue := q,
                       reads := reads s @ [\<lparr>seq = sequence, base_mod_probs = [],
                                            num_modbase_chunks = 0,
                                            num_modbase_chunks_called = 0\<rparr>]\<rparr>)
          else Next s
      | Blocked \<Rightarrow> Blocked
      | Threw e q \<Rightarrow> Threw e s)"

definition step :: "config \<Rightarrow> event \<Rightarrow> node \<Rightarrow> node outcome" where
  "step cfg e s =
     (case e of
        Push_message sequence \<Rightarrow> push_message sequence s
      | Terminate \<Rightarrow> Next (s\<lparr>work_queue := terminate (work_queue s)\<rparr>)
      | Runner i \<Rightarrow> runner_worker_step cfg i s
      | Caller caller_id now results \<Rightarrow> caller_worker_iteration cfg caller_id now results s
      | Output \<Rightarrow> output_worker_step cfg s)"

fun run :: "config \<Rightarrow> event list \<Rightarrow> node \<Rightarrow> node outcome" where
  "run cfg [] s = Next s"
| "run cfg (e # es) s =
     (case step cfg e s of
        Next s' \<Rightarrow> run cfg es s'
      | Blocked \<Rightarrow> Blocked
      | Threw err s' \<Rightarrow> Threw err s')"

inductive reachable :: "config \<Rightarrow> node \<Rightarrow> bool" for cfg :: config where
  reachable_initial: "reachable cfg (initial_node cfg)"
| reachable_step: "reachable cfg s \<Longrightarrow> step cfg e s = Next s' \<Longrightarrow> reachable cfg s'"

section \<open>The shutdown invariant\<close>

text \<open>
  What holds in every state the node can reach, as far as shutdown goes: the two
  counters of active threads count the threads that have not returned; the callers are
  told to terminate only when no runner is left, and the output thread only when no
  caller is left; a caller that has returned holds no chunk and found its queue empty
  after the last runner had gone; and the sink is terminated only by the output thread
  as it returns, with nothing left to apply.
\<close>

definition shutdown_inv :: "config \<Rightarrow> node \<Rightarrow> bool" where
  "shutdown_inv cfg s \<longleftrightarrow>
     length (caller_exited s) = num_callers cfg
     \<and> length (batched_chunks s) = num_callers cfg
     \<and> length (chunk_queues s) = num_models cfg
     \<and> num_active_model_callers s = int (length (filter Not (caller_exited s)))
     \<and> num_active_model_runners s = int (length (filter (\<lambda>pc. pc \<noteq> R_exited) (runner_pc s)))
     \<and> (terminate_callers s \<longrightarrow> num_active_model_runners s = 0)
     \<and> (terminate_output s \<longrightarrow> num_active_model_callers s = 0)
     \<and> (\<forall>c < num_callers cfg. caller_exited s ! c \<longrightarrow>
           batched_chunks s ! c = [] \<and> terminate_callers s
           \<and> chunk_queues s ! (c mod num_models cfg) = [])
     \<and> (sink_terminated s \<longrightarrow>
           terminate_output s \<and> processed_chunks s = [] \<and> output_pc s = O_exited)
     \<and> (terminate_output s \<longrightarrow> terminate_callers s)"

text \<open>
  What an action of runner \<open>i\<close> that leaves it at \<open>pc'\<close> may change, as far as the
  invariant is concerned: nothing of the callers or of the output thread, and of the
  runners' own counter and flag only what \<^verbatim>\<open>runner_worker_thread\<close> does on return.
\<close>

definition runner_effect :: "nat \<Rightarrow> runner_pc \<Rightarrow> node \<Rightarrow> node \<Rightarrow> bool" where
  "runner_effect i pc' s s' \<longleftrightarrow>
     caller_exited s' = caller_exited s \<and> batched_chunks s' = batched_chunks s
     \<and> processed_chunks s' = processed_chunks s
     \<and> num_active_model_callers s' = num_active_model_callers s
     \<and> terminate_output s' = terminate_output s \<and> sink_terminated s' = sink_terminated s
     \<and> output_pc s' = output_pc s \<and> length (chunk_queues s') = length (chunk_queues s)
     \<and> runner_pc s' = (runner_pc s)[i := pc']
     \<and> (if pc' = R_exited
         then num_active_model_runners s' = num_active_model_runners s - 1
            \<and> terminate_callers s' = (terminate_callers s \<or> num_active_model_runners s = 1)
         else num_active_model_runners s' = num_active_model_runners s
            \<and> terminate_callers s' = terminate_callers s)"

text \<open>
  What a pass of caller \<open>c\<close> may change, as far as the invariant is concerned:
  nothing of the runners, of the reads or of the sink, no other caller's batch, and no
  empty queue becomes non-empty. A pass on which the caller returns (\<open>exits\<close>) finds its queue
  empty with termination signalled, leaves its batch empty and does what
  \<^verbatim>\<open>caller_worker_thread\<close> does on return.
\<close>

definition caller_effect :: "config \<Rightarrow> nat \<Rightarrow> bool \<Rightarrow> node \<Rightarrow> node \<Rightarrow> bool" where
  "caller_effect cfg c exits s s' \<longleftrightarrow>
     runner_pc s' = runner_pc s
     \<and> work_queue s' = work_queue s \<and> reads s' = reads s
     \<and> working_reads s' = working_reads s \<and> sink_messages s' = sink_messages s
     \<and> num_active_model_runners s' = num_active_model_runners s
     \<and> terminate_callers s' = terminate_callers s
     \<and> sink_terminated s' = sink_terminated s \<and> output_pc s' = output_pc s
     \<and> length (batched_chunks s') = length (batched_chunks s)
     \<and> length (chunk_queues s') = length (chunk_queues s)
     \<and> (\<forall>c'. c' \<noteq> c \<longrightarrow> batched_chunks s' ! c' = batched_chunks s ! c')
     \<and> (\<forall>q. chunk_queues s ! q = [] \<longrightarrow> chunk_queues s' ! q = [])
     \<and> (if exits
         then caller_exited s' = (caller_exited s)[c := True]
            \<and> num_active_model_callers s' = num_active_model_callers s - 1
            \<and> terminate_output s' = (terminate_output s \<or> num_active_model_callers s = 1)
            \<and> batched_chunks s' ! c = [] \<and> terminate_callers s
            \<and> chunk_queues s ! (c mod num_models cfg) = []
         else caller_exited s' = caller_exited s
            \<and> num_active_model_callers s' = num_active_model_callers s
            \<and> terminate_output s' = terminate_output s)"

section \<open>Where a read is\<close>

text \<open>
  The read a runner has in hand, and the reads the node holds anywhere: in the work
  queue, in a runner's hands, in the working set, or already sent to the sink.
\<close>

fun held_read :: "runner_pc \<Rightarrow> nat list" where
  "held_read (R_wait_queues r) = [r]"
| "held_read (R_generate r caller_id) = [r]"
| "held_read R_pop = []"
| "held_read R_exited = []"

definition read_ids :: "node \<Rightarrow> nat list" where
  "read_ids s =
     items (work_queue s) @ concat (map held_read (runner_pc s))
       @ working_reads s @ sink_messages s"

definition ids_inv :: "node \<Rightarrow> bool" where
  "ids_inv s \<longleftrightarrow> distinct (read_ids s) \<and> list_all (\<lambda>r. r < length (reads s)) (read_ids s)"

section \<open>Two small schedules\<close>

text \<open>
  One model on one device, batches of one chunk, one runner thread; the engine
  reports one motif hit, at position 0, in every sequence.
\<close>

definition single_hit_config :: config where
  "single_hit_config =
     \<lparr>num_devices = 1, batch_size = 1, num_callers = 1, remora_threads = 1, max_reads = 10,
      num_states = 5, base_prob_offsets = [0, 1, 3, 4],
      get_motif_hits = (\<lambda>caller_id sequence. [0])\<rparr>"

text \<open>
  A read \<^verbatim>\<open>"C"\<close> arrives and the input is terminated. The runner pops the read,
  initialises it and enqueues its one chunk; before the runner goes on, the caller
  takes the chunk and scores it (the batch is full), and the output thread applies the
  result and scans the working set. Then the runner puts the read in the working set
  and leaves, the caller leaves, and the output thread leaves.
\<close>

definition late_insert_schedule :: "event list" where
  "late_insert_schedule =
     [Push_message ''C'', Terminate, Runner 0, Runner 0, Runner 0,
      Caller 0 0 \<lparr>row_size = 2, data = [1 / 4, 3 / 4]\<rparr>,
      Output, Output, Runner 0, Runner 0,
      Caller 0 0 \<lparr>row_size = 0, data = []\<rparr>, Output]"



text \<open>
  The state of that node when the caller holds the read's chunk in its batch, the
  chunk with the scores \<open>1/4\<close> and \<open>3/4\<close>, and the read as initialised.
\<close>

definition scored_chunk :: RemoraChunk where
  "scored_chunk = \<lparr>source_read = 0, context_hit = 0, scores = [1 / 4, 3 / 4]\<rparr>"

definition initialised_read :: Read where
  "initialised_read =
     \<lparr>seq = ''C'', base_mod_probs = [0, 1, 0, 0, 0], num_modbase_chunks = 1,
      num_modbase_chunks_called = 0\<rparr>"

definition held_batch_node :: node where
  "held_batch_node =
     (initial_node single_hit_config)
       \<lparr>reads := [initialised_read], batched_chunks := [[scored_chunk\<lparr>scores := []\<rparr>]]\<rparr>"

text \<open>
  The parameters of a model for one modification of \<open>C\<close> in the motif \<open>CG\<close>, from
  which the constructor computes the layout of \<open>single_hit_config\<close>; and the state of
  that node when its runner holds a read \<^verbatim>\<open>"CN"\<close>.
\<close>

definition cpg_params :: BaseModParams where
  "cpg_params =
     \<lparr>motif = ''CG'', motif_offset = 0, mod_bases = ''m'', mod_long_names = [''5mC''],
      base_mod_count = 1\<rparr>"

definition invalid_read_node :: node where
  "invalid_read_node =
     (initial_node single_hit_config)
       \<lparr>reads := [\<lparr>seq = ''CN'', base_mod_probs = [], num_modbase_chunks = 0,
                   num_modbase_chunks_called = 0\<rparr>],
        runner_pc := [R_wait_queues 0]\<rparr>"

text \<open>The same node with batches of two chunks, and a result of two rows.\<close>

definition pair_batch_config :: config where
  "pair_batch_config = single_hit_config\<lparr>batch_size := 2\<rparr>"

definition two_rows :: tensor where
  "two_rows = \<lparr>row_size = 2, data = [1 / 4, 3 / 4, 1 / 8, 7 / 8]\<rparr>"

text \<open>A read \<^verbatim>\<open>"CC"\<close> as initialised, and a chunk at its second position.\<close>

definition two_position_read :: Read where
  "two_position_read =
     \<lparr>seq = ''CC'', base_mod_probs = [0, 1, 0, 0, 0, 0, 1, 0, 0, 0], num_modbase_chunks = 2,
      num_modbase_chunks_called = 0\<rparr>"

definition second_chunk :: RemoraChunk where
  "second_chunk = \<lparr>source_read = 0, context_hit = 1, scores = [1 / 2, 1 / 2]\<rparr>"




section \<open>Properties of the byte encoding\<close>

lemma quantise_score_nonneg:
  assumes "0 \<le> s"
  shows "quantise_score s = Some (word_of_int (min \<lfloor>s * 256\<rfloor> 255))"
proof -
  have f: "0 \<le> \<lfloor>s * 256\<rfloor>" using assms by simp
  have m: "min (real_of_int \<lfloor>s * 256\<rfloor>) 255 = real_of_int (min \<lfloor>s * 256\<rfloor> 255)"
    by (simp add: min_def)
  have "\<not> min \<lfloor>s * 256\<rfloor> 255 < 0" using f by linarith
  then show ?thesis
    unfolding quantise_score_def Let_def m by simp
qed

lemma quantise_score_neg:
  assumes "s < 0"
  shows "quantise_score s = None"
proof -
  have "\<lfloor>s * 256\<rfloor> < 0" using assms by (simp add: floor_less_iff)
  then show ?thesis unfolding quantise_score_def Let_def by (simp add: min_def)
qed

lemma byte_of_int_mono:
  "0 \<le> a \<Longrightarrow> a \<le> b \<Longrightarrow> b \<le> 255 \<Longrightarrow> (word_of_int a :: byte) \<le> word_of_int b"
  by (simp add: word_le_def uint_word_of_int take_bit_eq_mod)

lemma uint_byte_of_int:
  "0 \<le> a \<Longrightarrow> a \<le> 255 \<Longrightarrow> uint (word_of_int a :: byte) = a"
  by (simp add: uint_word_of_int take_bit_eq_mod)

lemma write_scores_length:
  "write_scores idx xs probs = Inr probs' \<Longrightarrow> length probs' = length probs"
  by (induction idx xs probs arbitrary: probs' rule: write_scores.induct)
     (auto split: if_splits option.splits)

lemma write_scores_below:
  "write_scores idx xs probs = Inr probs' \<Longrightarrow> k < idx \<Longrightarrow> probs' ! k = probs ! k"
  by (induction idx xs probs arbitrary: probs' rule: write_scores.induct)
     (auto split: if_splits option.splits)

lemma write_scores_above:
  "write_scores idx xs probs = Inr probs' \<Longrightarrow> idx + length xs \<le> k \<Longrightarrow> probs' ! k = probs ! k"
  by (induction idx xs probs arbitrary: probs' rule: write_scores.induct)
     (auto split: if_splits option.splits)

lemma write_scores_nth:
  "write_scores idx xs probs = Inr probs' \<Longrightarrow> j < length xs \<Longrightarrow>
     quantise_score (xs ! j) = Some (probs' ! (idx + j))"
proof (induction idx xs probs arbitrary: probs' j rule: write_scores.induct)
  case (1 idx probs)
  then show ?case by simp
next
  case (2 idx x xs probs)
  from "2.prems"(1) obtain b where
    inb: "idx < length probs" and q: "quantise_score x = Some b"
    and rest: "write_scores (Suc idx) xs (probs[idx := b]) = Inr probs'"
    by (auto split: if_splits option.splits)
  show ?case
  proof (cases j)
    case 0
    have "probs' ! idx = (probs[idx := b]) ! idx"
      using write_scores_below [OF rest, of idx] by simp
    then show ?thesis using 0 q inb by simp
  next
    case (Suc j')
    then have "j' < length xs" using "2.prems"(2) by simp
    from "2.IH" [OF inb q rest this] show ?thesis using Suc by simp
  qed
qed


text \<open>
  C10. Every byte the aggregator stores for a chunk score \<open>s\<close> is
  \<open>uint8(min(floor(s * 256), 255))\<close>: the loop that writes a chunk's scores puts the
  byte of score \<open>j\<close> at the \<open>j\<close>-th index of the chunk's range. For every score
  \<open>s \<ge> 0\<close> the byte is defined (the mapping is total on \<open>[0, 1]\<close>), its value is
  \<open>min(floor(s * 256), 255)\<close> and so never exceeds 255, it is 255 for every score at or
  above \<open>255/256\<close>, and the mapping is monotone.
\<close>

theorem C10_byte_quantisation:
  "(write_scores idx xs probs = Inr probs' \<longrightarrow>
      (\<forall>j < length xs. quantise_score (xs ! j) = Some (probs' ! (idx + j))))
   \<and> (0 \<le> s \<longrightarrow>
      (\<exists>b. quantise_score s = Some b \<and> uint b = min \<lfloor>s * 256\<rfloor> 255 \<and> uint b \<le> 255)
      \<and> (255 / 256 \<le> s \<longrightarrow> quantise_score s = Some 255)
      \<and> (\<forall>t. s \<le> t \<longrightarrow>
            (\<exists>b c. quantise_score s = Some b \<and> quantise_score t = Some c \<and> b \<le> c)))"
proof (intro conjI impI allI)
  fix j assume "write_scores idx xs probs = Inr probs'" "j < length xs"
  then show "quantise_score (xs ! j) = Some (probs' ! (idx + j))"
    by (rule write_scores_nth)
next
  assume s: "0 \<le> s"
  have f: "0 \<le> \<lfloor>s * 256\<rfloor>" using s by simp
  have "0 \<le> min \<lfloor>s * 256\<rfloor> 255" using f by linarith
  then have "uint (word_of_int (min \<lfloor>s * 256\<rfloor> 255) :: byte) = min \<lfloor>s * 256\<rfloor> 255"
    by (intro uint_byte_of_int) simp_all
  then show "\<exists>b. quantise_score s = Some b \<and> uint b = min \<lfloor>s * 256\<rfloor> 255 \<and> uint b \<le> 255"
    by (simp add: quantise_score_nonneg [OF s])
next
  assume s: "0 \<le> s" and hi: "255 / 256 \<le> s"
  have "255 \<le> s * 256" using hi by simp
  then have "255 \<le> \<lfloor>s * 256\<rfloor>" by (simp add: le_floor_iff)
  then have "min \<lfloor>s * 256\<rfloor> 255 = 255" by simp
  then show "quantise_score s = Some 255"
    by (simp add: quantise_score_nonneg [OF s])
next
  fix t assume s: "0 \<le> s" and st: "s \<le> t"
  have t: "0 \<le> t" using s st by simp
  have "\<lfloor>s * 256\<rfloor> \<le> \<lfloor>t * 256\<rfloor>" using st by (intro floor_mono) simp
  then have le: "min \<lfloor>s * 256\<rfloor> 255 \<le> min \<lfloor>t * 256\<rfloor> 255" by simp
  have "0 \<le> min \<lfloor>s * 256\<rfloor> 255" using s by (simp add: min_def)
  then have "(word_of_int (min \<lfloor>s * 256\<rfloor> 255) :: byte) \<le> word_of_int (min \<lfloor>t * 256\<rfloor> 255)"
    using le by (intro byte_of_int_mono) simp_all
  then show "\<exists>b c. quantise_score s = Some b \<and> quantise_score t = Some c \<and> b \<le> c"
    by (simp add: quantise_score_nonneg [OF s] quantise_score_nonneg [OF t])
qed

theorem C10_byte_quantisation_witness:
  "write_scores 4 [1 / 2, 1] [1, 0, 0, 0, 0, 1, 0, 0] = Inr [1, 0, 0, 0, 128, 255, 0, 0]
   \<and> quantise_score (1 / 2) = Some 128 \<and> quantise_score 1 = Some 255
   \<and> (0::real) \<le> 1 / 2 \<and> (255::real) / 256 \<le> 1 \<and> (1::real) / 2 \<le> 1
   \<and> (128::byte) \<le> 255"
proof -
  have w: "write_scores 4 [1 / 2, 1] [1, 0, 0, 0, 0, 1, 0, 0] = Inr [1, 0, 0, 0, 128, 255, 0, 0]"
    by (simp add: quantise_score_def)
  have h: "(0::real) \<le> 1 / 2" by simp
  note inst = C10_byte_quantisation
    [of 4 "[1 / 2, 1]" "[1, 0, 0, 0, 0, 1, 0, 0]" "[1, 0, 0, 0, 128, 255, 0, 0]" "1 / 2"]
  from inst w have a: "quantise_score ([1 / 2, 1] ! 0) = Some ([1, 0, 0, 0, 128, 255, 0, 0] ! (4 + 0))"
    by blast
  from inst h have
    "\<exists>b c. quantise_score (1 / 2) = Some b \<and> quantise_score 1 = Some c \<and> b \<le> c"
    by simp
  then show ?thesis using w a by (simp add: quantise_score_def)
qed

section \<open>Evaluating the node on a schedule\<close>

lemmas node_step_defs =
  step_def push_message_def push_def new_queue_def terminate_def initial_node_def
  runner_worker_step_def try_pop_def chunk_queues_available_def max_chunks_in_def
  num_models_def runner_init_read_def base_mod_probs_init_def resize_def BASE_IDS_def
  runner_generate_chunks_def runner_finish_read_def runner_exit_def
  caller_worker_iteration_def call_current_batch_def tensor_row_def caller_exit_def
  output_worker_step_def apply_chunk_def quantise_score_def FORCE_TIMEOUT_def Let_def


section \<open>The channel\<close>

lemma push_all_ok:
  "\<not> terminated q \<Longrightarrow> length (items q) + length xs \<le> capacity q \<Longrightarrow>
     push_all xs q = (replicate (length xs) True, q\<lparr>items := items q @ xs\<rparr>)"
proof (induction xs arbitrary: q)
  case Nil
  then show ?case by simp
next
  case (Cons x xs)
  let ?q1 = "q\<lparr>items := items q @ [x]\<rparr>"
  have p: "try_push x q = (True, ?q1)" using Cons.prems by (simp add: try_push_def)
  have "push_all xs ?q1 = (replicate (length xs) True, ?q1\<lparr>items := items ?q1 @ xs\<rparr>)"
    using Cons.prems by (intro Cons.IH) simp_all
  then show ?case using p by simp
qed

lemma pop_n_items:
  "pop_n (length xs) (q\<lparr>items := xs @ ys\<rparr>) = Next (map Some xs, q\<lparr>items := ys\<rparr>)"
proof (induction xs arbitrary: q)
  case Nil
  then show ?case by simp
next
  case (Cons x xs)
  have "try_pop (q\<lparr>items := (x # xs) @ ys\<rparr>) = Next (Some x, q\<lparr>items := xs @ ys\<rparr>)"
    by (simp add: try_pop_def)
  then show ?case using Cons.IH [of q] by simp
qed

text \<open>
  C3. On the channel as the spec describes it: \<open>N\<close> pushes onto an empty channel
  that is not terminated and has room for them all succeed, and the \<open>N\<close> pops that
  follow return the items in the order pushed; terminating twice is terminating once;
  on a terminated channel \<^verbatim>\<open>try_push\<close> fails and leaves the channel as it is (so every
  later push fails too); the pops after a termination return the items still buffered,
  in order, and the next pop fails.
\<close>

theorem C3_channel_fifo_and_termination:
  "(\<not> terminated q0 \<and> items q0 = [] \<and> length xs \<le> capacity q0 \<longrightarrow>
      (\<exists>q1 q2. push_all xs q0 = (replicate (length xs) True, q1)
         \<and> pop_n (length xs) q1 = Next (map Some xs, q2)))
   \<and> terminate (terminate q) = terminate q
   \<and> try_push x (terminate q) = (False, terminate q)
   \<and> (terminated q \<longrightarrow> try_push x q = (False, q))
   \<and> (\<exists>q'. pop_n (length (items q)) (terminate q) = Next (map Some (items q), q')
         \<and> terminated q' \<and> items q' = [] \<and> try_pop q' = Next (None, q'))"
proof (intro conjI impI)
  assume a: "\<not> terminated q0 \<and> items q0 = [] \<and> length xs \<le> capacity q0"
  then have "push_all xs q0 = (replicate (length xs) True, q0\<lparr>items := items q0 @ xs\<rparr>)"
    by (intro push_all_ok) simp_all
  moreover have "pop_n (length xs) (q0\<lparr>items := xs @ []\<rparr>) = Next (map Some xs, q0\<lparr>items := []\<rparr>)"
    by (rule pop_n_items)
  ultimately show "\<exists>q1 q2. push_all xs q0 = (replicate (length xs) True, q1)
      \<and> pop_n (length xs) q1 = Next (map Some xs, q2)"
    using a by simp
next
  show "terminate (terminate q) = terminate q" by (simp add: terminate_def)
next
  show "try_push x (terminate q) = (False, terminate q)"
    by (simp add: try_push_def terminate_def)
next
  assume "terminated q"
  then show "try_push x q = (False, q)" by (simp add: try_push_def)
next
  let ?t = "terminate q"
  have "pop_n (length (items q)) (?t\<lparr>items := items q @ []\<rparr>)
          = Next (map Some (items q), ?t\<lparr>items := []\<rparr>)"
    by (rule pop_n_items)
  moreover have "?t\<lparr>items := items q @ []\<rparr> = ?t" by (simp add: terminate_def)
  moreover have "try_pop (?t\<lparr>items := []\<rparr>) = Next (None, ?t\<lparr>items := []\<rparr>)"
    by (simp add: try_pop_def terminate_def)
  ultimately show "\<exists>q'. pop_n (length (items q)) (terminate q) = Next (map Some (items q), q')
      \<and> terminated q' \<and> items q' = [] \<and> try_pop q' = Next (None, q')"
    by (simp add: terminate_def)
qed

text \<open>
  The test \<^verbatim>\<open>InputsMatchOutputs\<close> of \<^verbatim>\<open>AsyncQueueTest.cpp\<close>: ten pushes of \<open>0, ..., 9\<close>
  onto a channel of capacity ten, then ten pops.
\<close>

theorem C3_channel_fifo_and_termination_witness:
  "\<not> terminated (new_queue 10 :: int AsyncQueue)
   \<and> items (new_queue 10 :: int AsyncQueue) = []
   \<and> length [0, 1, 2, 3, 4, 5, 6, 7, 8, 9 :: int] \<le> capacity (new_queue 10 :: int AsyncQueue)
   \<and> (\<exists>q1 q2. push_all [0, 1, 2, 3, 4, 5, 6, 7, 8, 9 :: int] (new_queue 10)
                  = (replicate 10 True, q1)
         \<and> pop_n 10 q1 = Next (map Some [0, 1, 2, 3, 4, 5, 6, 7, 8, 9], q2))
   \<and> terminated (terminate (new_queue 1 :: int AsyncQueue))
   \<and> try_push 42 (terminate (new_queue 1 :: int AsyncQueue))
        = (False, terminate (new_queue 1))"
proof -
  let ?L = "[0, 1, 2, 3, 4, 5, 6, 7, 8, 9 :: int]"
  have h: "\<not> terminated (new_queue 10 :: int AsyncQueue)
      \<and> items (new_queue 10 :: int AsyncQueue) = []
      \<and> length ?L \<le> capacity (new_queue 10 :: int AsyncQueue)"
    by (simp add: new_queue_def)
  have t: "terminated (terminate (new_queue 1 :: int AsyncQueue))"
    by (simp add: terminate_def)
  have len: "length ?L = 10" by simp
  note inst = C3_channel_fifo_and_termination
         [of "new_queue 10" ?L "terminate (new_queue 1)" 42]
  from inst h have
    "\<exists>q1 q2. push_all ?L (new_queue 10) = (replicate (length ?L) True, q1)
        \<and> pop_n (length ?L) q1 = Next (map Some ?L, q2)"
    by blast
  then have e: "\<exists>q1 q2. push_all ?L (new_queue 10) = (replicate 10 True, q1)
        \<and> pop_n 10 q1 = Next (map Some ?L, q2)"
    unfolding len .
  from inst t have p: "try_push 42 (terminate (new_queue 1 :: int AsyncQueue))
      = (False, terminate (new_queue 1))"
    by blast
  from h t e p show ?thesis by blast
qed

section \<open>Scoring a batch and applying the results\<close>

lemma upt_0_Suc_map: "[0..<Suc n] = 0 # map Suc [0..<n]"
  by (simp add: upt_conv_Cons map_Suc_upt del: upt_Suc)

lemma put_results_eq:
  "put_results results i batch processed =
     processed @ map (\<lambda>k. (batch ! k)\<lparr>scores := tensor_row results (i + k)\<rparr>) [0..<length batch]"
proof (induction batch arbitrary: i processed)
  case Nil
  then show ?case by simp
next
  case (Cons chunk batch)
  have "put_results results i (chunk # batch) processed =
          (processed @ [chunk\<lparr>scores := tensor_row results i\<rparr>])
            @ map (\<lambda>k. (batch ! k)\<lparr>scores := tensor_row results (Suc i + k)\<rparr>) [0..<length batch]"
    by (simp add: Cons.IH)
  also have "\<dots> = processed @ map (\<lambda>k. ((chunk # batch) ! k)\<lparr>scores := tensor_row results (i + k)\<rparr>)
                                  [0..<length (chunk # batch)]"
    by (simp add: upt_0_Suc_map comp_def del: upt_Suc)
  finally show ?case .
qed

lemma call_current_batch_ok:
  assumes "caller_id < length (batched_chunks s)"
    and "length (batched_chunks s ! caller_id) * row_size results \<le> length (data results)"
  shows "\<exists>s'. call_current_batch caller_id results s = Next s'
           \<and> processed_chunks s' = processed_chunks s
                @ map (\<lambda>i. (batched_chunks s ! caller_id ! i)\<lparr>scores := tensor_row results i\<rparr>)
                      [0..<length (batched_chunks s ! caller_id)]
           \<and> batched_chunks s' ! caller_id = []"
  using assms by (simp add: call_current_batch_def Let_def put_results_eq)

lemma apply_chunk_Inr:
  assumes "apply_chunk cfg chunk rs = Inr rs'"
  shows "\<exists>probs. source_read chunk < length rs
           \<and> context_hit chunk < length (seq (rs ! source_read chunk))
           \<and> 0 \<le> BASE_IDS (seq (rs ! source_read chunk) ! context_hit chunk)
           \<and> write_scores
                (num_states cfg * context_hit chunk
                   + base_prob_offsets cfg ! nat (BASE_IDS (seq (rs ! source_read chunk) ! context_hit chunk)))
                (scores chunk) (base_mod_probs (rs ! source_read chunk)) = Inr probs
           \<and> rs' = rs[source_read chunk :=
                       (rs ! source_read chunk)\<lparr>base_mod_probs := probs,
                          num_modbase_chunks_called :=
                            num_modbase_chunks_called (rs ! source_read chunk) + 1\<rparr>]"
  using assms unfolding apply_chunk_def Let_def
  by (auto split: if_splits sum.splits)

lemma apply_chunk_length:
  "apply_chunk cfg chunk rs = Inr rs' \<Longrightarrow> length rs' = length rs"
  by (drule apply_chunk_Inr) auto






section \<open>The class layout computed at construction\<close>

lemma BASE_IDS_range: "BASE_IDS c < 4" "- 1 \<le> BASE_IDS c"
  by (simp_all add: BASE_IDS_def)

lemma BASE_IDS_neg_iff: "BASE_IDS c < 0 \<longleftrightarrow> c \<notin> set allowed_bases"
  by (simp add: BASE_IDS_def allowed_bases_def)

lemma less_4_cases: "b < (4::nat) \<Longrightarrow> b = 0 \<or> b = 1 \<or> b = 2 \<or> b = 3"
  by arith

lemma collect_model_info_layout:
  "collect_model_info True ps (mi, n) = Inr (mi', n') \<Longrightarrow>
   length mi = 4 \<Longrightarrow> \<forall>b < 4. 1 \<le> base_counts (mi ! b) \<Longrightarrow>
   base_counts (mi ! 0) + base_counts (mi ! 1) + base_counts (mi ! 2) + base_counts (mi ! 3) \<le> n \<Longrightarrow>
   length mi' = 4 \<and> (\<forall>b < 4. 1 \<le> base_counts (mi' ! b)) \<and>
   base_counts (mi' ! 0) + base_counts (mi' ! 1) + base_counts (mi' ! 2) + base_counts (mi' ! 3) \<le> n'"
proof (induction ps arbitrary: mi n)
  case Nil
  then show ?case by simp
next
  case (Cons p ps)
  from Cons.prems(1) obtain base where
    mb: "motif_base p = Some base" and ok: "base \<in> set allowed_bases"
    by (auto split: option.splits if_splits)
  define b where "b = nat (BASE_IDS base)"
  define e where
    "e = (mi ! b)\<lparr>long_names := mod_long_names p, alphabet := alphabet (mi ! b) @ mod_bases p,
           mi_motif := motif p, mi_motif_offset := motif_offset p,
           base_counts := base_mod_count p + 1\<rparr>"
  have b4: "b < 4"
    using ok BASE_IDS_range [of base] BASE_IDS_neg_iff [of base] by (simp add: b_def)
  have rest: "collect_model_info True ps (mi[b := e], n + base_mod_count p) = Inr (mi', n')"
    using Cons.prems(1) mb ok by (simp add: Let_def b_def e_def)
  have len: "length (mi[b := e]) = 4" using Cons.prems(2) by simp
  have one: "\<forall>k < 4. 1 \<le> base_counts (mi[b := e] ! k)"
  proof (intro allI impI)
    fix k :: nat assume k: "k < 4"
    show "1 \<le> base_counts (mi[b := e] ! k)"
    proof (cases "k = b")
      case True
      then show ?thesis using Cons.prems(2) b4 by (simp add: e_def)
    next
      case False
      then show ?thesis using Cons.prems(3) k by simp
    qed
  qed
  have old: "1 \<le> base_counts (mi ! b)" using Cons.prems(3) b4 by simp
  have sum: "base_counts (mi[b := e] ! 0) + base_counts (mi[b := e] ! 1)
               + base_counts (mi[b := e] ! 2) + base_counts (mi[b := e] ! 3)
             \<le> n + base_mod_count p"
    using less_4_cases [OF b4] Cons.prems(2,4) old
    by (auto simp: nth_list_update e_def)
  show ?case by (rule Cons.IH [OF rest len one sum])
qed

lemma initial_model_info_layout:
  "length initial_model_info = 4"
  "\<forall>b < 4. base_counts (initial_model_info ! b) = 1"
  by (simp_all add: initial_model_info_def eval_nat_numeral less_Suc_eq upt_rec)

text \<open>
  With the four canonical classes counted in \<^verbatim>\<open>m_num_states\<close> before the call, the
  classes of each base fit in one position's block.
\<close>

lemma get_modbase_info_layout:
  assumes "get_modbase_info_and_maybe_init ps n0 = Inr (info, mi, n, offsets)" and "4 \<le> n0"
  shows "length offsets = 4"
    and "b < 4 \<Longrightarrow> offsets ! b + base_counts (mi ! b) \<le> n"
    and "b < 4 \<Longrightarrow> offsets ! b < n"
proof -
  from assms(1) have c: "collect_model_info True ps (initial_model_info, n0) = Inr (mi, n)"
    and o: "offsets = base_prob_offsets_of mi"
    by (auto simp: get_modbase_info_and_maybe_init_def split: sum.splits)
  have "base_counts (initial_model_info ! 0) + base_counts (initial_model_info ! 1)
          + base_counts (initial_model_info ! 2) + base_counts (initial_model_info ! 3) \<le> n0"
    using assms(2) initial_model_info_layout(2) by simp
  with collect_model_info_layout [OF c initial_model_info_layout(1)] initial_model_info_layout(2)
  have l: "length mi = 4" and one: "\<forall>b < 4. 1 \<le> base_counts (mi ! b)"
    and sum: "base_counts (mi ! 0) + base_counts (mi ! 1) + base_counts (mi ! 2)
                + base_counts (mi ! 3) \<le> n"
    by simp_all
  show "length offsets = 4" by (simp add: o base_prob_offsets_of_def Let_def)
  show le: "offsets ! b + base_counts (mi ! b) \<le> n" if "b < 4" for b
    using less_4_cases [OF that] sum by (auto simp: o base_prob_offsets_of_def Let_def)
  show "offsets ! b < n" if "b < 4"
  proof -
    have "1 \<le> base_counts (mi ! b)" using one that by simp
    then show ?thesis using le [OF that] by linarith
  qed
qed

lemma ModBaseCallerNode_layout:
  assumes "ModBaseCallerNode ps hits n_threads n_devices n_batch n_reads n0 = Inr (cfg, s0)"
    and "4 \<le> n0"
  shows "length (base_prob_offsets cfg) = 4"
    and "b < 4 \<Longrightarrow> base_prob_offsets cfg ! b < num_states cfg"
    and "s0 = initial_node cfg"
proof -
  from assms(1) obtain info mi n offsets where
    g: "get_modbase_info_and_maybe_init (take (length ps div n_devices) ps) n0
          = Inr (info, mi, n, offsets)"
    and cfg: "num_states cfg = n" "base_prob_offsets cfg = offsets"
    and s0: "s0 = initial_node cfg"
    by (auto simp: ModBaseCallerNode_def Let_def split: if_splits sum.splits)
  show "length (base_prob_offsets cfg) = 4"
    using get_modbase_info_layout(1) [OF g assms(2)] cfg by simp
  show "base_prob_offsets cfg ! b < num_states cfg" if "b < 4"
    using get_modbase_info_layout(3) [OF g assms(2) that] cfg by simp
  show "s0 = initial_node cfg" by (rule s0)
qed

section \<open>Malformed input\<close>

lemma init_canonical_length:
  "init_canonical n offsets cs i probs = (probs', err) \<Longrightarrow> length probs' = length probs"
  by (induction n offsets cs i probs rule: init_canonical.induct)
     (auto simp: Let_def split: if_splits)

lemma init_canonical_invalid:
  assumes "length offsets = 4" and "\<forall>b < 4. offsets ! b < n"
  shows "(i + length cs) * n \<le> length probs \<Longrightarrow> c \<in> set cs \<Longrightarrow> BASE_IDS c < 0 \<Longrightarrow>
         \<exists>probs'. init_canonical n offsets cs i probs = (probs', Some Invalid_character_in_sequence)"
proof (induction cs arbitrary: i probs)
  case Nil
  then show ?case by simp
next
  case (Cons x cs)
  show ?case
  proof (cases "BASE_IDS x < 0")
    case True
    then show ?thesis by simp
  next
    case False
    then have b4: "nat (BASE_IDS x) < 4" using BASE_IDS_range(1) [of x] by simp
    then have "offsets ! nat (BASE_IDS x) < n" using assms(2) by simp
    then have "i * n + offsets ! nat (BASE_IDS x) < Suc i * n" by simp
    also have "\<dots> \<le> (i + length (x # cs)) * n" by (intro mult_le_mono1) simp
    finally have inb: "i * n + offsets ! nat (BASE_IDS x) < length probs"
      using Cons.prems(1) by simp
    have "c \<in> set cs" using Cons.prems(2,3) False by auto
    moreover have "(Suc i + length cs) * n
        \<le> length (probs[i * n + offsets ! nat (BASE_IDS x) := 1])"
      using Cons.prems(1) by simp
    ultimately have
      "\<exists>probs'. init_canonical n offsets cs (Suc i) (probs[i * n + offsets ! nat (BASE_IDS x) := 1])
          = (probs', Some Invalid_character_in_sequence)"
      using Cons.prems(3) by (intro Cons.IH)
    then show ?thesis using False inb by (simp add: Let_def)
  qed
qed

lemma collect_model_info_invalid:
  "p \<in> set ps \<Longrightarrow> motif_base p = Some base \<Longrightarrow> base \<notin> set allowed_bases \<Longrightarrow>
   \<forall>p' \<in> set ps. motif_base p' \<noteq> None \<Longrightarrow>
   collect_model_info node ps (mi, n) = Inl Invalid_base_in_remora_model_metadata"
proof (induction ps arbitrary: mi n)
  case Nil
  then show ?case by simp
next
  case (Cons q ps)
  from Cons.prems(4) obtain bq where bq: "motif_base q = Some bq" by auto
  show ?case
  proof (cases "bq \<in> set allowed_bases")
    case False
    then show ?thesis using bq by simp
  next
    case True
    then have "q \<noteq> p" using bq Cons.prems(2,3) by auto
    then have "p \<in> set ps" using Cons.prems(1) by simp
    then have "\<And>mi' n'. collect_model_info node ps (mi', n') = Inl Invalid_base_in_remora_model_metadata"
      using Cons.prems(2,3,4) by (intro Cons.IH) simp_all
    then show ?thesis using bq True by (simp add: Let_def)
  qed
qed

text \<open>
  C9. A runner that holds a read whose sequence has a symbol outside \<open>{A, C, G, T}\<close>
  never gets past the initialisation of the read's buffer: while a request queue is at
  the mark it stays blocked, and once the queues have room its action throws ``Invalid
  character in sequence'' with every request queue, the working set and the messages
  sent to the sink as they were; the chunks of a read are generated only after that
  action, so the read is neither chunked nor forwarded. (The node is one built by the
  constructor, with the four canonical classes counted in \<^verbatim>\<open>m_num_states\<close> beforehand.)
  And the constructor throws ``Invalid base in remora model metadata'' when, among the
  models it reads the parameters of, one has a base outside \<open>{A, C, G, T}\<close> at its
  motif offset.
\<close>

theorem C9_malformed_input_throws:
  "(ModBaseCallerNode ps hits n_threads n_devices n_batch n_reads n0 = Inr (cfg, s0) \<and> 4 \<le> n0
      \<and> i < length (runner_pc s) \<and> runner_pc s ! i = R_wait_queues r \<and> r < length (reads s)
      \<and> c \<in> set (seq (reads s ! r)) \<and> c \<notin> set ''ACGT'' \<longrightarrow>
      (if chunk_queues_available cfg s
       then \<exists>s'. runner_worker_step cfg i s = Threw Invalid_character_in_sequence s'
              \<and> chunk_queues s' = chunk_queues s
              \<and> working_reads s' = working_reads s
              \<and> sink_messages s' = sink_messages s
       else runner_worker_step cfg i s = Blocked))
   \<and> (0 < d \<and> p \<in> set (take (length qs div d) qs) \<and> motif_offset p < length (motif p)
        \<and> motif p ! motif_offset p \<notin> set ''ACGT''
        \<and> (\<forall>p' \<in> set (take (length qs div d) qs). motif_offset p' \<le> length (motif p')) \<longrightarrow>
        ModBaseCallerNode qs hits' t d b m n1 = Inl Invalid_base_in_remora_model_metadata)"
proof (intro conjI impI)
  assume a: "ModBaseCallerNode ps hits n_threads n_devices n_batch n_reads n0 = Inr (cfg, s0)
      \<and> 4 \<le> n0 \<and> i < length (runner_pc s) \<and> runner_pc s ! i = R_wait_queues r
      \<and> r < length (reads s) \<and> c \<in> set (seq (reads s ! r)) \<and> c \<notin> set ''ACGT''"
  then have l4: "length (base_prob_offsets cfg) = 4"
    and lt: "\<forall>b < 4. base_prob_offsets cfg ! b < num_states cfg"
    using ModBaseCallerNode_layout(1,2) [of ps hits n_threads n_devices n_batch n_reads n0 cfg s0]
    by simp_all
  let ?read = "reads s ! r"
  let ?buf = "resize (length (seq ?read) * num_states cfg) 0 (base_mod_probs ?read)"
  have neg: "BASE_IDS c < 0" using a by (simp add: BASE_IDS_neg_iff allowed_bases_def)
  have "(0 + length (seq ?read)) * num_states cfg \<le> length ?buf"
    by (simp add: resize_def)
  from init_canonical_invalid [OF l4 lt this _ neg, of] a obtain probs' where
    "init_canonical (num_states cfg) (base_prob_offsets cfg) (seq ?read) 0 ?buf
       = (probs', Some Invalid_character_in_sequence)"
    by blast
  then have init: "base_mod_probs_init (num_states cfg) (base_prob_offsets cfg) ?read
      = (probs', Some Invalid_character_in_sequence)"
    by (simp add: base_mod_probs_init_def)
  show "if chunk_queues_available cfg s
       then \<exists>s'. runner_worker_step cfg i s = Threw Invalid_character_in_sequence s'
              \<and> chunk_queues s' = chunk_queues s
              \<and> working_reads s' = working_reads s
              \<and> sink_messages s' = sink_messages s
       else runner_worker_step cfg i s = Blocked"
    using a init by (simp add: runner_worker_step_def runner_init_read_def)
next
  assume a: "0 < d \<and> p \<in> set (take (length qs div d) qs) \<and> motif_offset p < length (motif p)
        \<and> motif p ! motif_offset p \<notin> set ''ACGT''
        \<and> (\<forall>p' \<in> set (take (length qs div d) qs). motif_offset p' \<le> length (motif p'))"
  have mb: "motif_base p = Some (motif p ! motif_offset p)" using a by (simp add: motif_base_def)
  have all: "\<forall>p' \<in> set (take (length qs div d) qs). motif_base p' \<noteq> None"
    using a by (auto simp: motif_base_def)
  have "collect_model_info True (take (length qs div d) qs) (initial_model_info, n1)
          = Inl Invalid_base_in_remora_model_metadata"
    using a all by (intro collect_model_info_invalid [OF _ mb]) (simp_all add: allowed_bases_def)
  then show "ModBaseCallerNode qs hits' t d b m n1 = Inl Invalid_base_in_remora_model_metadata"
    using a by (simp add: ModBaseCallerNode_def get_modbase_info_and_maybe_init_def)
qed

lemma single_hit_config_constructed:
  "ModBaseCallerNode [cpg_params] (\<lambda>caller_id sequence. [0]) 1 1 1 10 4
     = Inr (single_hit_config, initial_node single_hit_config)"
  by (simp add: ModBaseCallerNode_def get_modbase_info_and_maybe_init_def cpg_params_def
        motif_base_def allowed_bases_def BASE_IDS_def initial_model_info_def
        base_prob_offsets_of_def single_hit_config_def Let_def upt_rec eval_nat_numeral)

theorem C9_malformed_input_throws_witness:
  "ModBaseCallerNode [cpg_params] (\<lambda>caller_id sequence. [0]) 1 1 1 10 4
     = Inr (single_hit_config, initial_node single_hit_config)
   \<and> chunk_queues_available single_hit_config invalid_read_node
   \<and> (\<exists>s'. runner_worker_step single_hit_config 0 invalid_read_node
               = Threw Invalid_character_in_sequence s'
         \<and> chunk_queues s' = [[]] \<and> working_reads s' = [] \<and> sink_messages s' = [])
   \<and> ModBaseCallerNode [cpg_params\<lparr>motif := ''NG''\<rparr>] (\<lambda>caller_id sequence. [0]) 1 1 1 10 4
        = Inl Invalid_base_in_remora_model_metadata"
proof -
  let ?hits = "\<lambda>(caller_id::nat) (sequence::string). [0::nat]"
  let ?bad = "cpg_params\<lparr>motif := ''NG''\<rparr>"
  note inst = C9_malformed_input_throws
    [of "[cpg_params]" ?hits 1 1 1 10 4 single_hit_config "initial_node single_hit_config"
        0 invalid_read_node 0 "CHR ''N''" 1 ?bad "[?bad]" ?hits 1 1 10 4]
  have av: "chunk_queues_available single_hit_config invalid_read_node"
    by (simp add: chunk_queues_available_def invalid_read_node_def initial_node_def
          single_hit_config_def num_models_def max_chunks_in_def)
  have h1: "ModBaseCallerNode [cpg_params] ?hits 1 1 1 10 4
        = Inr (single_hit_config, initial_node single_hit_config) \<and> (4::nat) \<le> 4
      \<and> 0 < length (runner_pc invalid_read_node)
      \<and> runner_pc invalid_read_node ! 0 = R_wait_queues 0
      \<and> 0 < length (reads invalid_read_node)
      \<and> CHR ''N'' \<in> set (seq (reads invalid_read_node ! 0)) \<and> CHR ''N'' \<notin> set ''ACGT''"
    using single_hit_config_constructed by (simp add: invalid_read_node_def)
  have h2: "(0::nat) < 1 \<and> ?bad \<in> set (take (length [?bad] div 1) [?bad])
      \<and> motif_offset ?bad < length (motif ?bad)
      \<and> motif ?bad ! motif_offset ?bad \<notin> set ''ACGT''
      \<and> (\<forall>p' \<in> set (take (length [?bad] div 1) [?bad]). motif_offset p' \<le> length (motif p'))"
    by (simp add: cpg_params_def)
  from inst h1 av have
    "\<exists>s'. runner_worker_step single_hit_config 0 invalid_read_node
              = Threw Invalid_character_in_sequence s'
        \<and> chunk_queues s' = chunk_queues invalid_read_node
        \<and> working_reads s' = working_reads invalid_read_node
        \<and> sink_messages s' = sink_messages invalid_read_node"
    by presburger
  then have t: "\<exists>s'. runner_worker_step single_hit_config 0 invalid_read_node
               = Threw Invalid_character_in_sequence s'
         \<and> chunk_queues s' = [[]] \<and> working_reads s' = [] \<and> sink_messages s' = []"
    by (simp add: invalid_read_node_def initial_node_def single_hit_config_def num_models_def)
  from inst h2 have
    "ModBaseCallerNode [?bad] ?hits 1 1 1 10 4 = Inl Invalid_base_in_remora_model_metadata"
    by blast
  with h1 av t show ?thesis by blast
qed

section \<open>One pass of a caller thread\<close>

lemma push_chunks_eq:
  "length batched \<le> n \<Longrightarrow>
     push_chunks n batched queue =
       (batched @ take (n - length batched) queue, drop (n - length batched) queue)"
proof (induction queue arbitrary: batched)
  case Nil
  then show ?case by simp
next
  case (Cons chunk queue)
  show ?case
  proof (cases "length batched = n")
    case True
    then show ?thesis by simp
  next
    case False
    then have lt: "length batched < n" using Cons.prems by simp
    then have "length (batched @ [chunk]) \<le> n" by simp
    from Cons.IH [OF this] lt show ?thesis
      by (simp add: Suc_diff_Suc [symmetric] take_Cons' drop_Cons' del: Suc_diff_Suc)
  qed
qed

lemma call_current_batch_fields:
  assumes "call_current_batch caller_id results s = Next s'"
  shows "chunk_queues s' = chunk_queues s" and "reads s' = reads s"
    and "working_reads s' = working_reads s" and "sink_messages s' = sink_messages s"
    and "sink_terminated s' = sink_terminated s" and "caller_exited s' = caller_exited s"
    and "last_chunk_reserve_time s' = last_chunk_reserve_time s"
    and "terminate_callers s' = terminate_callers s" and "terminate_output s' = terminate_output s"
    and "num_active_model_callers s' = num_active_model_callers s"
    and "num_active_model_runners s' = num_active_model_runners s"
    and "runner_pc s' = runner_pc s" and "output_pc s' = output_pc s"
    and "work_queue s' = work_queue s"
    and "length (batched_chunks s') = length (batched_chunks s)"
  using assms by (auto simp: call_current_batch_def Let_def split: if_splits)

text \<open>The wait has timed out, or is still pending, with nothing to take.\<close>

lemma caller_timeout:
  assumes "caller_id < num_callers cfg" and "caller_id < length (caller_exited s)"
    and "\<not> caller_exited s ! caller_id" and "0 < num_models cfg"
    and "chunk_queues s ! (caller_id mod num_models cfg) = []" and "\<not> terminate_callers s"
  shows "caller_worker_iteration cfg caller_id now results s =
           (if now < last_chunk_reserve_time s ! caller_id + FORCE_TIMEOUT then Blocked
            else if batched_chunks s ! caller_id \<noteq> [] then call_current_batch caller_id results s
            else Next s)"
  using assms by (simp add: caller_worker_iteration_def Let_def)

text \<open>There are chunks to take and the batch has room.\<close>

lemma caller_take:
  assumes "caller_id < num_callers cfg" and "caller_id < length (caller_exited s)"
    and "\<not> caller_exited s ! caller_id" and "0 < num_models cfg"
    and "chunk_queues s ! (caller_id mod num_models cfg) \<noteq> []"
    and "length (batched_chunks s ! caller_id) < batch_size cfg"
    and "caller_id < length (batched_chunks s)"
    and "caller_id < length (last_chunk_reserve_time s)"
  shows "\<exists>s1. batched_chunks s1 ! caller_id =
                 batched_chunks s ! caller_id
                   @ take (batch_size cfg - length (batched_chunks s ! caller_id))
                       (chunk_queues s ! (caller_id mod num_models cfg))
           \<and> length (batched_chunks s ! caller_id) < length (batched_chunks s1 ! caller_id)
           \<and> length (batched_chunks s1) = length (batched_chunks s)
           \<and> last_chunk_reserve_time s1 ! caller_id = now
           \<and> processed_chunks s1 = processed_chunks s
           \<and> caller_worker_iteration cfg caller_id now results s =
               (if length (batched_chunks s1 ! caller_id) = batch_size cfg
                then call_current_batch caller_id results s1 else Next s1)"
proof -
  let ?qid = "caller_id mod num_models cfg"
  let ?batched = "batched_chunks s ! caller_id"
  let ?queue = "chunk_queues s ! ?qid"
  let ?batched' = "?batched @ take (batch_size cfg - length ?batched) ?queue"
  let ?s1 = "s\<lparr>chunk_queues := (chunk_queues s)[?qid := drop (batch_size cfg - length ?batched) ?queue],
               batched_chunks := (batched_chunks s)[caller_id := ?batched'],
               last_chunk_reserve_time := (last_chunk_reserve_time s)[caller_id := now]\<rparr>"
  have pc: "push_chunks (batch_size cfg) ?batched ?queue
      = (?batched', drop (batch_size cfg - length ?batched) ?queue)"
    using assms(6) by (intro push_chunks_eq) simp
  have grow: "length ?batched < length ?batched'"
    using assms(5,6) by (cases ?queue) simp_all
  then have ne: "length ?batched' \<noteq> length ?batched" by simp
  have it: "caller_worker_iteration cfg caller_id now results s =
      (if length ?batched' = batch_size cfg then call_current_batch caller_id results ?s1
       else Next ?s1)"
    using assms(1-5) ne unfolding caller_worker_iteration_def Let_def pc by simp
  have "batched_chunks ?s1 ! caller_id = ?batched'" using assms(7) by simp
  moreover have "last_chunk_reserve_time ?s1 ! caller_id = now" using assms(8) by simp
  moreover have "processed_chunks ?s1 = processed_chunks s" by simp
  moreover have "length (batched_chunks ?s1) = length (batched_chunks s)" by simp
  ultimately show ?thesis using grow it assms(7) by (intro exI [of _ ?s1]) simp
qed


text \<open>
  C7. A caller that is running and holds a non-empty batch, with its queue empty and
  no termination signalled, is blocked in its wait while the time is before
  \<^verbatim>\<open>last_chunk_reserve_time + FORCE_TIMEOUT\<close>, and from that deadline on its pass
  scores the held batch (the chunks go to the processed chunks with their scores and the
  batch is left empty) before the caller waits again. A pass that finds chunks in the
  queue takes at least one and sets \<^verbatim>\<open>last_chunk_reserve_time\<close> to the time of the
  pass: the deadline is one timeout after the last chunk taken. That pass either fills
  the batch and scores it, or leaves a longer batch. Time is the model's clock: the
  delay between the deadline and the thread being scheduled is not part of the model.
\<close>

theorem C7_flush_on_idle:
  "(c < num_callers cfg \<and> c < length (caller_exited s) \<and> \<not> caller_exited s ! c
      \<and> 0 < num_models cfg \<and> c < length (batched_chunks s)
      \<and> batched_chunks s ! c \<noteq> []
      \<and> length (batched_chunks s ! c) * row_size results \<le> length (data results)
      \<and> chunk_queues s ! (c mod num_models cfg) = [] \<and> \<not> terminate_callers s \<longrightarrow>
      (if now < last_chunk_reserve_time s ! c + FORCE_TIMEOUT
       then caller_worker_iteration cfg c now results s = Blocked
       else \<exists>s'. caller_worker_iteration cfg c now results s = Next s'
              \<and> batched_chunks s' ! c = []
              \<and> processed_chunks s' = processed_chunks s
                   @ map (\<lambda>i. (batched_chunks s ! c ! i)\<lparr>scores := tensor_row results i\<rparr>)
                         [0..<length (batched_chunks s ! c)]))
   \<and> (c < num_callers cfg \<and> c < length (caller_exited t) \<and> \<not> caller_exited t ! c
        \<and> 0 < num_models cfg \<and> c < length (batched_chunks t)
        \<and> c < length (last_chunk_reserve_time t)
        \<and> length (batched_chunks t ! c) < batch_size cfg
        \<and> batch_size cfg * row_size results \<le> length (data results)
        \<and> chunk_queues t ! (c mod num_models cfg) \<noteq> [] \<longrightarrow>
        (\<exists>t'. caller_worker_iteration cfg c now results t = Next t'
           \<and> last_chunk_reserve_time t' ! c = now
           \<and> (if batch_size cfg \<le> length (batched_chunks t ! c)
                                      + length (chunk_queues t ! (c mod num_models cfg))
               then batched_chunks t' ! c = []
                  \<and> length (processed_chunks t') = length (processed_chunks t) + batch_size cfg
               else batched_chunks t' ! c
                      = batched_chunks t ! c @ chunk_queues t ! (c mod num_models cfg)
                  \<and> processed_chunks t' = processed_chunks t)))"
proof (intro conjI impI)
  assume a: "c < num_callers cfg \<and> c < length (caller_exited s) \<and> \<not> caller_exited s ! c
      \<and> 0 < num_models cfg \<and> c < length (batched_chunks s)
      \<and> batched_chunks s ! c \<noteq> []
      \<and> length (batched_chunks s ! c) * row_size results \<le> length (data results)
      \<and> chunk_queues s ! (c mod num_models cfg) = [] \<and> \<not> terminate_callers s"
  then have it: "caller_worker_iteration cfg c now results s =
      (if now < last_chunk_reserve_time s ! c + FORCE_TIMEOUT then Blocked
       else call_current_batch c results s)"
    using caller_timeout [of c cfg s now results] by simp
  from a call_current_batch_ok [of c s results] have
    "\<exists>s'. call_current_batch c results s = Next s'
       \<and> processed_chunks s' = processed_chunks s
            @ map (\<lambda>i. (batched_chunks s ! c ! i)\<lparr>scores := tensor_row results i\<rparr>)
                  [0..<length (batched_chunks s ! c)]
       \<and> batched_chunks s' ! c = []"
    by simp
  then show "if now < last_chunk_reserve_time s ! c + FORCE_TIMEOUT
       then caller_worker_iteration cfg c now results s = Blocked
       else \<exists>s'. caller_worker_iteration cfg c now results s = Next s'
              \<and> batched_chunks s' ! c = []
              \<and> processed_chunks s' = processed_chunks s
                   @ map (\<lambda>i. (batched_chunks s ! c ! i)\<lparr>scores := tensor_row results i\<rparr>)
                         [0..<length (batched_chunks s ! c)]"
    unfolding it by auto
next
  assume a: "c < num_callers cfg \<and> c < length (caller_exited t) \<and> \<not> caller_exited t ! c
        \<and> 0 < num_models cfg \<and> c < length (batched_chunks t)
        \<and> c < length (last_chunk_reserve_time t)
        \<and> length (batched_chunks t ! c) < batch_size cfg
        \<and> batch_size cfg * row_size results \<le> length (data results)
        \<and> chunk_queues t ! (c mod num_models cfg) \<noteq> []"
  let ?batched = "batched_chunks t ! c"
  let ?queue = "chunk_queues t ! (c mod num_models cfg)"
  from a caller_take [of c cfg t now results] obtain t1 where
    b1: "batched_chunks t1 ! c = ?batched @ take (batch_size cfg - length ?batched) ?queue"
    and len: "length (batched_chunks t1) = length (batched_chunks t)"
    and last: "last_chunk_reserve_time t1 ! c = now"
    and proc: "processed_chunks t1 = processed_chunks t"
    and it: "caller_worker_iteration cfg c now results t =
               (if length (batched_chunks t1 ! c) = batch_size cfg
                then call_current_batch c results t1 else Next t1)"
    by auto
  have full: "length (batched_chunks t1 ! c) = batch_size cfg
      \<longleftrightarrow> batch_size cfg \<le> length ?batched + length ?queue"
    using a unfolding b1 by auto
  show "\<exists>t'. caller_worker_iteration cfg c now results t = Next t'
           \<and> last_chunk_reserve_time t' ! c = now
           \<and> (if batch_size cfg \<le> length ?batched + length ?queue
               then batched_chunks t' ! c = []
                  \<and> length (processed_chunks t') = length (processed_chunks t) + batch_size cfg
               else batched_chunks t' ! c = ?batched @ ?queue
                  \<and> processed_chunks t' = processed_chunks t)"
  proof (cases "batch_size cfg \<le> length ?batched + length ?queue")
    case True
    then have f: "length (batched_chunks t1 ! c) = batch_size cfg" using full by simp
    have "c < length (batched_chunks t1)" using a len by simp
    moreover have "length (batched_chunks t1 ! c) * row_size results \<le> length (data results)"
      using a f by simp
    ultimately obtain t' where
      t': "call_current_batch c results t1 = Next t'"
      and p: "processed_chunks t' = processed_chunks t1
                @ map (\<lambda>i. (batched_chunks t1 ! c ! i)\<lparr>scores := tensor_row results i\<rparr>)
                      [0..<length (batched_chunks t1 ! c)]"
      and e: "batched_chunks t' ! c = []"
      using call_current_batch_ok [of c t1 results] by blast
    have "last_chunk_reserve_time t' ! c = now"
      using call_current_batch_fields(7) [OF t'] last by simp
    moreover have "length (processed_chunks t') = length (processed_chunks t) + batch_size cfg"
      using p proc f by simp
    ultimately show ?thesis using True it f t' e by simp
  next
    case False
    then have nf: "length (batched_chunks t1 ! c) \<noteq> batch_size cfg" using full by simp
    have "batched_chunks t1 ! c = ?batched @ ?queue" using False b1 by simp
    then show ?thesis using False it nf last proc by simp
  qed
qed

theorem C7_flush_on_idle_witness:
  "caller_worker_iteration pair_batch_config 0 99 two_rows held_batch_node = Blocked
   \<and> (\<exists>s'. caller_worker_iteration pair_batch_config 0 100 two_rows held_batch_node = Next s'
         \<and> batched_chunks s' ! 0 = [] \<and> processed_chunks s' = [scored_chunk])
   \<and> (\<exists>t'. caller_worker_iteration pair_batch_config 0 100 two_rows
               (held_batch_node\<lparr>chunk_queues := [[scored_chunk\<lparr>scores := []\<rparr>]]\<rparr>) = Next t'
         \<and> last_chunk_reserve_time t' ! 0 = 100
         \<and> batched_chunks t' ! 0 = [] \<and> length (processed_chunks t') = 2)"
proof -
  let ?t = "held_batch_node\<lparr>chunk_queues := [[scored_chunk\<lparr>scores := []\<rparr>]]\<rparr>"
  have cfg: "num_callers pair_batch_config = 1" "num_models pair_batch_config = 1"
    "batch_size pair_batch_config = 2"
    by (simp_all add: pair_batch_config_def single_hit_config_def num_models_def)
  have s: "caller_exited held_batch_node = [False]"
    "batched_chunks held_batch_node = [[scored_chunk\<lparr>scores := []\<rparr>]]"
    "chunk_queues held_batch_node = [[]]" "\<not> terminate_callers held_batch_node"
    "last_chunk_reserve_time held_batch_node = [0]" "processed_chunks held_batch_node = []"
    by (simp_all add: held_batch_node_def initial_node_def single_hit_config_def num_models_def)
  have r: "row_size two_rows = 2" "length (data two_rows) = 4"
    by (simp_all add: two_rows_def)
  have h1: "0 < num_callers pair_batch_config \<and> 0 < length (caller_exited held_batch_node)
      \<and> \<not> caller_exited held_batch_node ! 0 \<and> 0 < num_models pair_batch_config
      \<and> 0 < length (batched_chunks held_batch_node)
      \<and> batched_chunks held_batch_node ! 0 \<noteq> []
      \<and> length (batched_chunks held_batch_node ! 0) * row_size two_rows \<le> length (data two_rows)
      \<and> chunk_queues held_batch_node ! (0 mod num_models pair_batch_config) = []
      \<and> \<not> terminate_callers held_batch_node"
    by (simp add: cfg s r)
  have h2: "0 < num_callers pair_batch_config \<and> 0 < length (caller_exited ?t)
      \<and> \<not> caller_exited ?t ! 0 \<and> 0 < num_models pair_batch_config
      \<and> 0 < length (batched_chunks ?t) \<and> 0 < length (last_chunk_reserve_time ?t)
      \<and> length (batched_chunks ?t ! 0) < batch_size pair_batch_config
      \<and> batch_size pair_batch_config * row_size two_rows \<le> length (data two_rows)
      \<and> chunk_queues ?t ! (0 mod num_models pair_batch_config) \<noteq> []"
    by (simp add: cfg s r)
  note early = C7_flush_on_idle [of 0 pair_batch_config held_batch_node two_rows 99 ?t]
  note late = C7_flush_on_idle [of 0 pair_batch_config held_batch_node two_rows 100 ?t]
  from early h1 have b: "caller_worker_iteration pair_batch_config 0 99 two_rows held_batch_node = Blocked"
    by (simp add: s FORCE_TIMEOUT_def)
  from late h1 have
    "\<exists>s'. caller_worker_iteration pair_batch_config 0 100 two_rows held_batch_node = Next s'
        \<and> batched_chunks s' ! 0 = []
        \<and> processed_chunks s' = processed_chunks held_batch_node
             @ map (\<lambda>i. (batched_chunks held_batch_node ! 0 ! i)\<lparr>scores := tensor_row two_rows i\<rparr>)
                   [0..<length (batched_chunks held_batch_node ! 0)]"
    by (simp add: s FORCE_TIMEOUT_def)
  then have f: "\<exists>s'. caller_worker_iteration pair_batch_config 0 100 two_rows held_batch_node = Next s'
        \<and> batched_chunks s' ! 0 = [] \<and> processed_chunks s' = [scored_chunk]"
    by (simp add: s scored_chunk_def tensor_row_def two_rows_def)
  from late h2 have
    "\<exists>t'. caller_worker_iteration pair_batch_config 0 100 two_rows ?t = Next t'
        \<and> last_chunk_reserve_time t' ! 0 = 100
        \<and> (if batch_size pair_batch_config \<le> length (batched_chunks ?t ! 0)
                      + length (chunk_queues ?t ! (0 mod num_models pair_batch_config))
            then batched_chunks t' ! 0 = []
               \<and> length (processed_chunks t') = length (processed_chunks ?t) + batch_size pair_batch_config
            else batched_chunks t' ! 0 = batched_chunks ?t ! 0 @ chunk_queues ?t ! (0 mod num_models pair_batch_config)
               \<and> processed_chunks t' = processed_chunks ?t)"
    by blast
  then have g: "\<exists>t'. caller_worker_iteration pair_batch_config 0 100 two_rows ?t = Next t'
        \<and> last_chunk_reserve_time t' ! 0 = 100
        \<and> batched_chunks t' ! 0 = [] \<and> length (processed_chunks t') = 2"
    by (simp add: cfg s numeral_2_eq_2)
  from b f g show ?thesis by blast
qed

section \<open>Backpressure on the request queues\<close>






section \<open>Writes of chunks at different positions\<close>

lemma write_scores_succeeds_iff:
  "(\<exists>probs'. write_scores idx xs probs = Inr probs') \<longleftrightarrow>
     (xs = [] \<or> idx + length xs \<le> length probs) \<and> (\<forall>x \<in> set xs. quantise_score x \<noteq> None)"
proof (induction idx xs probs rule: write_scores.induct)
  case (1 idx probs)
  then show ?case by simp
next
  case (2 idx x xs probs)
  show ?case
  proof (cases "idx < length probs")
    case False
    then show ?thesis by simp
  next
    case inb: True
    show ?thesis
    proof (cases "quantise_score x")
      case None
      then show ?thesis using inb by auto
    next
      case (Some b)
      have "(\<exists>probs'. write_scores idx (x # xs) probs = Inr probs')
          \<longleftrightarrow> (\<exists>probs'. write_scores (Suc idx) xs (probs[idx := b]) = Inr probs')"
        using inb Some by simp
      also have "\<dots> \<longleftrightarrow> (xs = [] \<or> Suc idx + length xs \<le> length (probs[idx := b]))
          \<and> (\<forall>x \<in> set xs. quantise_score x \<noteq> None)"
        using "2.IH" [OF inb Some] .
      also have "\<dots> \<longleftrightarrow> (x # xs = [] \<or> idx + length (x # xs) \<le> length probs)
          \<and> (\<forall>x \<in> set (x # xs). quantise_score x \<noteq> None)"
        using inb Some by auto
      finally show ?thesis .
    qed
  qed
qed

lemma write_scores_commute:
  assumes w1: "write_scores a xs p = Inr p1" and w2: "write_scores b ys p1 = Inr p2"
    and dis: "a + length xs \<le> b \<or> b + length ys \<le> a"
  shows "\<exists>p1'. write_scores b ys p = Inr p1' \<and> write_scores a xs p1' = Inr p2"
proof -
  have l1: "length p1 = length p" by (rule write_scores_length [OF w1])
  have l2: "length p2 = length p" using write_scores_length [OF w2] l1 by simp
  have "\<exists>p1'. write_scores b ys p = Inr p1'"
    using w2 l1 write_scores_succeeds_iff [of b ys p1] write_scores_succeeds_iff [of b ys p]
    by auto
  then obtain p1' where w1': "write_scores b ys p = Inr p1'" by blast
  have l1': "length p1' = length p" by (rule write_scores_length [OF w1'])
  have "\<exists>p2'. write_scores a xs p1' = Inr p2'"
    using w1 l1' write_scores_succeeds_iff [of a xs p] write_scores_succeeds_iff [of a xs p1']
    by auto
  then obtain p2' where w2': "write_scores a xs p1' = Inr p2'" by blast
  have l2': "length p2' = length p" using write_scores_length [OF w2'] l1' by simp
  have "p2' = p2"
  proof (rule nth_equalityI)
    show "length p2' = length p2" using l2 l2' by simp
  next
    fix k assume "k < length p2'"
    consider (inA) "a \<le> k" "k < a + length xs" | (inB) "b \<le> k" "k < b + length ys"
      | (out) "(k < a \<or> a + length xs \<le> k)" "(k < b \<or> b + length ys \<le> k)"
      by linarith
    then show "p2' ! k = p2 ! k"
    proof cases
      case inA
      define j where "j = k - a"
      have j: "k = a + j" "j < length xs" using inA by (simp_all add: j_def)
      have outB: "k < b \<or> b + length ys \<le> k" using inA dis by linarith
      have "p2 ! k = p1 ! k"
        using outB write_scores_below [OF w2] write_scores_above [OF w2] by blast
      moreover have e1: "quantise_score (xs ! j) = Some (p1 ! k)"
        using write_scores_nth [OF w1 j(2)] j(1) by simp
      moreover have e2: "quantise_score (xs ! j) = Some (p2' ! k)"
        using write_scores_nth [OF w2' j(2)] j(1) by simp
      moreover have "p2' ! k = p1 ! k" using e1 e2 by simp
      ultimately show ?thesis by simp
    next
      case inB
      define j where "j = k - b"
      have j: "k = b + j" "j < length ys" using inB by (simp_all add: j_def)
      have outA: "k < a \<or> a + length xs \<le> k" using inB dis by linarith
      have "p2' ! k = p1' ! k"
        using outA write_scores_below [OF w2'] write_scores_above [OF w2'] by blast
      moreover have e1: "quantise_score (ys ! j) = Some (p1' ! k)"
        using write_scores_nth [OF w1' j(2)] j(1) by simp
      moreover have e2: "quantise_score (ys ! j) = Some (p2 ! k)"
        using write_scores_nth [OF w2 j(2)] j(1) by simp
      moreover have "p2 ! k = p1' ! k" using e1 e2 by simp
      ultimately show ?thesis by simp
    next
      case out
      have "p2 ! k = p1 ! k"
        using out(2) write_scores_below [OF w2] write_scores_above [OF w2] by blast
      moreover have "p1 ! k = p ! k"
        using out(1) write_scores_below [OF w1] write_scores_above [OF w1] by blast
      moreover have "p2' ! k = p1' ! k"
        using out(1) write_scores_below [OF w2'] write_scores_above [OF w2'] by blast
      moreover have "p1' ! k = p ! k"
        using out(2) write_scores_below [OF w1'] write_scores_above [OF w1'] by blast
      ultimately show ?thesis by simp
    qed
  qed
  then show ?thesis using w1' w2' by blast
qed

lemma apply_chunk_eq:
  assumes "source_read chunk < length rs"
    and "context_hit chunk < length (seq (rs ! source_read chunk))"
    and "0 \<le> BASE_IDS (seq (rs ! source_read chunk) ! context_hit chunk)"
    and "length (base_prob_offsets cfg) = 4"
  shows "apply_chunk cfg chunk rs =
           (case write_scores
                   (num_states cfg * context_hit chunk
                      + base_prob_offsets cfg
                          ! nat (BASE_IDS (seq (rs ! source_read chunk) ! context_hit chunk)))
                   (scores chunk) (base_mod_probs (rs ! source_read chunk)) of
              Inl e \<Rightarrow> Inl e
            | Inr probs \<Rightarrow>
                Inr (rs[source_read chunk :=
                          (rs ! source_read chunk)\<lparr>base_mod_probs := probs,
                             num_modbase_chunks_called :=
                               num_modbase_chunks_called (rs ! source_read chunk) + 1\<rparr>]))"
proof -
  have "BASE_IDS (seq (rs ! source_read chunk) ! context_hit chunk) < 4"
    by (rule BASE_IDS_range(1))
  then show ?thesis using assms unfolding apply_chunk_def Let_def by simp
qed

text \<open>
  C8. With the layout the node computes from its models' parameters (the four
  canonical classes counted beforehand), a chunk at position \<open>p\<close> whose score vector
  is no longer than the class count of the base at \<open>p\<close> writes inside the block
  \<open>[num_states * p, num_states * (p + 1))\<close> of that position. So the index ranges of
  two chunks of one read at different positions are disjoint, and when applying the
  two chunks in one order succeeds, applying them in the other order succeeds with the
  same reads, in which the slice of each chunk holds the bytes of its scores. (The
  output thread is the only writer of the buffers; the model has no two writes at once.)
\<close>

theorem C8_disjoint_writes:
  "get_modbase_info_and_maybe_init ps n0 = Inr (info, mi, num_states cfg, base_prob_offsets cfg)
     \<and> 4 \<le> n0
     \<and> source_read c1 = r \<and> source_read c2 = r \<and> r < length rs
     \<and> context_hit c1 \<noteq> context_hit c2
     \<and> context_hit c1 < length (seq (rs ! r)) \<and> context_hit c2 < length (seq (rs ! r))
     \<and> 0 \<le> BASE_IDS (seq (rs ! r) ! context_hit c1)
     \<and> 0 \<le> BASE_IDS (seq (rs ! r) ! context_hit c2)
     \<and> length (scores c1) \<le> base_counts (mi ! nat (BASE_IDS (seq (rs ! r) ! context_hit c1)))
     \<and> length (scores c2) \<le> base_counts (mi ! nat (BASE_IDS (seq (rs ! r) ! context_hit c2)))
     \<and> i1 = num_states cfg * context_hit c1
               + base_prob_offsets cfg ! nat (BASE_IDS (seq (rs ! r) ! context_hit c1))
     \<and> i2 = num_states cfg * context_hit c2
               + base_prob_offsets cfg ! nat (BASE_IDS (seq (rs ! r) ! context_hit c2))
   \<longrightarrow>
     num_states cfg * context_hit c1 \<le> i1
     \<and> i1 + length (scores c1) \<le> num_states cfg * (context_hit c1 + 1)
     \<and> num_states cfg * context_hit c2 \<le> i2
     \<and> i2 + length (scores c2) \<le> num_states cfg * (context_hit c2 + 1)
     \<and> {i1 ..< i1 + length (scores c1)} \<inter> {i2 ..< i2 + length (scores c2)} = {}
     \<and> (apply_chunks cfg [c1, c2] rs = Inr rs' \<longrightarrow>
          apply_chunks cfg [c2, c1] rs = Inr rs'
          \<and> (\<forall>j < length (scores c1).
                 quantise_score (scores c1 ! j) = Some (base_mod_probs (rs' ! r) ! (i1 + j)))
          \<and> (\<forall>j < length (scores c2).
                 quantise_score (scores c2 ! j) = Some (base_mod_probs (rs' ! r) ! (i2 + j))))"
proof (intro impI)
  assume a: "get_modbase_info_and_maybe_init ps n0
               = Inr (info, mi, num_states cfg, base_prob_offsets cfg)
     \<and> 4 \<le> n0
     \<and> source_read c1 = r \<and> source_read c2 = r \<and> r < length rs
     \<and> context_hit c1 \<noteq> context_hit c2
     \<and> context_hit c1 < length (seq (rs ! r)) \<and> context_hit c2 < length (seq (rs ! r))
     \<and> 0 \<le> BASE_IDS (seq (rs ! r) ! context_hit c1)
     \<and> 0 \<le> BASE_IDS (seq (rs ! r) ! context_hit c2)
     \<and> length (scores c1) \<le> base_counts (mi ! nat (BASE_IDS (seq (rs ! r) ! context_hit c1)))
     \<and> length (scores c2) \<le> base_counts (mi ! nat (BASE_IDS (seq (rs ! r) ! context_hit c2)))
     \<and> i1 = num_states cfg * context_hit c1
               + base_prob_offsets cfg ! nat (BASE_IDS (seq (rs ! r) ! context_hit c1))
     \<and> i2 = num_states cfg * context_hit c2
               + base_prob_offsets cfg ! nat (BASE_IDS (seq (rs ! r) ! context_hit c2))"
  let ?ns = "num_states cfg"
  let ?p1 = "context_hit c1" and ?p2 = "context_hit c2"
  let ?b1 = "nat (BASE_IDS (seq (rs ! r) ! ?p1))" and ?b2 = "nat (BASE_IDS (seq (rs ! r) ! ?p2))"
  let ?R = "rs ! r"
  from a have g: "get_modbase_info_and_maybe_init ps n0
      = Inr (info, mi, num_states cfg, base_prob_offsets cfg)" and n0: "4 \<le> n0"
    by simp_all
  have l4: "length (base_prob_offsets cfg) = 4" by (rule get_modbase_info_layout(1) [OF g n0])
  have b1: "?b1 < 4" and b2: "?b2 < 4"
    using BASE_IDS_range(1) [of "seq (rs ! r) ! ?p1"] BASE_IDS_range(1) [of "seq (rs ! r) ! ?p2"]
    by simp_all
  have i1: "i1 = ?ns * ?p1 + base_prob_offsets cfg ! ?b1"
    and i2: "i2 = ?ns * ?p2 + base_prob_offsets cfg ! ?b2"
    using a by simp_all
  have f1: "base_prob_offsets cfg ! ?b1 + length (scores c1) \<le> ?ns"
    using get_modbase_info_layout(2) [OF g n0 b1] a by linarith
  have f2: "base_prob_offsets cfg ! ?b2 + length (scores c2) \<le> ?ns"
    using get_modbase_info_layout(2) [OF g n0 b2] a by linarith
  have in1: "?ns * ?p1 \<le> i1" "i1 + length (scores c1) \<le> ?ns * (?p1 + 1)"
    using f1 by (simp_all add: i1)
  have in2: "?ns * ?p2 \<le> i2" "i2 + length (scores c2) \<le> ?ns * (?p2 + 1)"
    using f2 by (simp_all add: i2)
  have dis: "i1 + length (scores c1) \<le> i2 \<or> i2 + length (scores c2) \<le> i1"
  proof (cases "?p1 < ?p2")
    case True
    then have "?ns * (?p1 + 1) \<le> ?ns * ?p2" by (intro mult_le_mono2) simp
    then show ?thesis using in1 in2 by linarith
  next
    case False
    then have "?p2 < ?p1" using a by simp
    then have "?ns * (?p2 + 1) \<le> ?ns * ?p1" by (intro mult_le_mono2) simp
    then show ?thesis using in1 in2 by linarith
  qed
  have sets: "{i1 ..< i1 + length (scores c1)} \<inter> {i2 ..< i2 + length (scores c2)} = {}"
    using dis by auto
  have order: "apply_chunks cfg [c2, c1] rs = Inr rs'
          \<and> (\<forall>j < length (scores c1).
                 quantise_score (scores c1 ! j) = Some (base_mod_probs (rs' ! r) ! (i1 + j)))
          \<and> (\<forall>j < length (scores c2).
                 quantise_score (scores c2 ! j) = Some (base_mod_probs (rs' ! r) ! (i2 + j)))"
    if both: "apply_chunks cfg [c1, c2] rs = Inr rs'"
  proof -
    from both obtain rsA where
      A: "apply_chunk cfg c1 rs = Inr rsA" and B: "apply_chunk cfg c2 rsA = Inr rs'"
      by (auto split: sum.splits)
    from apply_chunk_Inr [OF A] a obtain pA where
      wA: "write_scores i1 (scores c1) (base_mod_probs ?R) = Inr pA"
      and rsA: "rsA = rs[r := ?R\<lparr>base_mod_probs := pA,
                  num_modbase_chunks_called := num_modbase_chunks_called ?R + 1\<rparr>]"
      by auto
    have RA: "rsA ! r = ?R\<lparr>base_mod_probs := pA,
        num_modbase_chunks_called := num_modbase_chunks_called ?R + 1\<rparr>"
      using rsA a by simp
    from apply_chunk_Inr [OF B] a RA obtain pB where
      wB: "write_scores i2 (scores c2) pA = Inr pB"
      and rs': "rs' = rsA[r := (rsA ! r)\<lparr>base_mod_probs := pB,
                  num_modbase_chunks_called := num_modbase_chunks_called (rsA ! r) + 1\<rparr>]"
      by auto
    from write_scores_commute [OF wA wB dis] obtain pA' where
      wA': "write_scores i2 (scores c2) (base_mod_probs ?R) = Inr pA'"
      and wB': "write_scores i1 (scores c1) pA' = Inr pB"
      by blast
    let ?rsA' = "rs[r := ?R\<lparr>base_mod_probs := pA',
                  num_modbase_chunks_called := num_modbase_chunks_called ?R + 1\<rparr>]"
    have A': "apply_chunk cfg c2 rs = Inr ?rsA'"
      using apply_chunk_eq [of c2 rs cfg] a l4 wA' by (simp add: i2)
    have RA': "?rsA' ! r = ?R\<lparr>base_mod_probs := pA',
        num_modbase_chunks_called := num_modbase_chunks_called ?R + 1\<rparr>"
      using a by simp
    have B': "apply_chunk cfg c1 ?rsA' = Inr rs'"
      using apply_chunk_eq [of c1 ?rsA' cfg] a l4 wB' RA' by (simp add: i1 rs' rsA)
    have swapped: "apply_chunks cfg [c2, c1] rs = Inr rs'" using A' B' by simp
    have probs: "base_mod_probs (rs' ! r) = pB" using rs' rsA a by simp
    have s1: "\<forall>j < length (scores c1).
        quantise_score (scores c1 ! j) = Some (base_mod_probs (rs' ! r) ! (i1 + j))"
      using write_scores_nth [OF wB'] probs by simp
    have s2: "\<forall>j < length (scores c2).
        quantise_score (scores c2 ! j) = Some (base_mod_probs (rs' ! r) ! (i2 + j))"
      using write_scores_nth [OF wB] probs by simp
    from swapped s1 s2 show ?thesis by blast
  qed
  from in1 in2 sets order
  show "num_states cfg * context_hit c1 \<le> i1
     \<and> i1 + length (scores c1) \<le> num_states cfg * (context_hit c1 + 1)
     \<and> num_states cfg * context_hit c2 \<le> i2
     \<and> i2 + length (scores c2) \<le> num_states cfg * (context_hit c2 + 1)
     \<and> {i1 ..< i1 + length (scores c1)} \<inter> {i2 ..< i2 + length (scores c2)} = {}
     \<and> (apply_chunks cfg [c1, c2] rs = Inr rs' \<longrightarrow>
          apply_chunks cfg [c2, c1] rs = Inr rs'
          \<and> (\<forall>j < length (scores c1).
                 quantise_score (scores c1 ! j) = Some (base_mod_probs (rs' ! r) ! (i1 + j)))
          \<and> (\<forall>j < length (scores c2).
                 quantise_score (scores c2 ! j) = Some (base_mod_probs (rs' ! r) ! (i2 + j))))"
    by blast
qed

theorem C8_disjoint_writes_witness:
  "{1 ..< 1 + length (scores scored_chunk)} \<inter> {6 ..< 6 + length (scores second_chunk)}
     = ({} :: nat set)
   \<and> apply_chunks single_hit_config [scored_chunk, second_chunk] [two_position_read]
        = Inr [two_position_read\<lparr>base_mod_probs := [0, 64, 192, 0, 0, 0, 128, 128, 0, 0],
                                  num_modbase_chunks_called := 2\<rparr>]
   \<and> apply_chunks single_hit_config [second_chunk, scored_chunk] [two_position_read]
        = Inr [two_position_read\<lparr>base_mod_probs := [0, 64, 192, 0, 0, 0, 128, 128, 0, 0],
                                  num_modbase_chunks_called := 2\<rparr>]"
proof -
  let ?rs' = "[two_position_read\<lparr>base_mod_probs := [0, 64, 192, 0, 0, 0, 128, 128, 0, 0],
                                  num_modbase_chunks_called := 2\<rparr>]"
  obtain info mi where
    g: "get_modbase_info_and_maybe_init [cpg_params] 4 = Inr (info, mi, 5, [0, 1, 3, 4])"
    and mi: "base_counts (mi ! 1) = 2"
    by (simp add: get_modbase_info_and_maybe_init_def cpg_params_def motif_base_def
          allowed_bases_def BASE_IDS_def initial_model_info_def base_prob_offsets_of_def
          Let_def upt_rec eval_nat_numeral)
  have cfg: "num_states single_hit_config = 5" "base_prob_offsets single_hit_config = [0, 1, 3, 4]"
    by (simp_all add: single_hit_config_def)
  have fwd: "apply_chunks single_hit_config [scored_chunk, second_chunk] [two_position_read] = Inr ?rs'"
    by (simp add: apply_chunk_def scored_chunk_def second_chunk_def two_position_read_def
          single_hit_config_def BASE_IDS_def quantise_score_def)
  have h: "get_modbase_info_and_maybe_init [cpg_params] 4
        = Inr (info, mi, num_states single_hit_config, base_prob_offsets single_hit_config)
     \<and> (4::nat) \<le> 4
     \<and> source_read scored_chunk = 0 \<and> source_read second_chunk = 0
     \<and> 0 < length [two_position_read]
     \<and> context_hit scored_chunk \<noteq> context_hit second_chunk
     \<and> context_hit scored_chunk < length (seq ([two_position_read] ! 0))
     \<and> context_hit second_chunk < length (seq ([two_position_read] ! 0))
     \<and> 0 \<le> BASE_IDS (seq ([two_position_read] ! 0) ! context_hit scored_chunk)
     \<and> 0 \<le> BASE_IDS (seq ([two_position_read] ! 0) ! context_hit second_chunk)
     \<and> length (scores scored_chunk)
          \<le> base_counts (mi ! nat (BASE_IDS (seq ([two_position_read] ! 0) ! context_hit scored_chunk)))
     \<and> length (scores second_chunk)
          \<le> base_counts (mi ! nat (BASE_IDS (seq ([two_position_read] ! 0) ! context_hit second_chunk)))
     \<and> 1 = num_states single_hit_config * context_hit scored_chunk
               + base_prob_offsets single_hit_config
                   ! nat (BASE_IDS (seq ([two_position_read] ! 0) ! context_hit scored_chunk))
     \<and> 6 = num_states single_hit_config * context_hit second_chunk
               + base_prob_offsets single_hit_config
                   ! nat (BASE_IDS (seq ([two_position_read] ! 0) ! context_hit second_chunk))"
    using g mi
    by (simp add: cfg scored_chunk_def second_chunk_def two_position_read_def BASE_IDS_def)
  from C8_disjoint_writes
         [of "[cpg_params]" 4 info mi single_hit_config scored_chunk 0 second_chunk
             "[two_position_read]" 1 6 ?rs'] h fwd
  have "{1 ..< 1 + length (scores scored_chunk)} \<inter> {6 ..< 6 + length (scores second_chunk)} = {}
      \<and> apply_chunks single_hit_config [second_chunk, scored_chunk] [two_position_read] = Inr ?rs'"
    by blast
  with fwd show ?thesis by blast
qed

section \<open>Shutdown\<close>

lemma length_filter_update:
  "i < length xs \<Longrightarrow>
     length (filter P (xs[i := y])) + (if P (xs ! i) then 1 else 0)
       = length (filter P xs) + (if P y then 1 else 0)"
proof (induction xs arbitrary: i)
  case Nil
  then show ?case by simp
next
  case (Cons x xs)
  show ?case
  proof (cases i)
    case 0
    then show ?thesis by simp
  next
    case (Suc j)
    then have "j < length xs" using Cons.prems by simp
    from Cons.IH [OF this] Suc show ?thesis by simp
  qed
qed


lemma shutdown_inv_initial: "shutdown_inv cfg (initial_node cfg)"
  by (simp add: shutdown_inv_def initial_node_def)

lemma output_worker_step_cases:
  assumes "output_worker_step cfg s = Next s'"
  shows "(output_pc s = O_wait \<and> terminate_output s \<and> processed_chunks s = []
            \<and> s' = s\<lparr>sink_terminated := True, output_pc := O_exited\<rparr>)
       \<or> (output_pc s = O_wait \<and> processed_chunks s \<noteq> []
            \<and> (\<exists>rs. apply_chunks cfg (processed_chunks s) (reads s) = Inr rs
                   \<and> s' = s\<lparr>reads := rs, processed_chunks := [], output_pc := O_scan\<rparr>))
       \<or> (output_pc s = O_scan
            \<and> s' = s\<lparr>working_reads := fst (forward_completed (reads s) (working_reads s)),
                      sink_messages := sink_messages s
                         @ snd (forward_completed (reads s) (working_reads s)),
                      output_pc := O_wait\<rparr>)"
  using assms unfolding output_worker_step_def
  by (cases "output_pc s") (auto split: if_splits sum.splits prod.splits)

lemma shutdown_inv_output:
  assumes "output_worker_step cfg s = Next s'" and "shutdown_inv cfg s"
  shows "shutdown_inv cfg s'"
  using output_worker_step_cases [OF assms(1)] assms(2)
  unfolding shutdown_inv_def by (elim disjE conjE exE) auto

lemma shutdown_inv_environment:
  assumes "shutdown_inv cfg s"
  shows "push_message sequence s = Next s' \<Longrightarrow> shutdown_inv cfg s'"
    and "shutdown_inv cfg (s\<lparr>work_queue := q\<rparr>)"
  using assms
  by (auto simp: push_message_def push_def shutdown_inv_def split: if_splits)

lemma runner_effect_pop:
  "runner_effect i (R_wait_queues r)
     s (s\<lparr>work_queue := q, runner_pc := (runner_pc s)[i := R_wait_queues r]\<rparr>)"
  by (simp add: runner_effect_def)

lemma runner_effect_exit: "runner_effect i R_exited s (runner_exit i s)"
  by (simp add: runner_effect_def runner_exit_def Let_def)

lemma runner_effect_init:
  assumes "runner_init_read cfg i r s = Next s'"
  shows "runner_effect i (R_generate r 0) s s'"
proof -
  obtain probs err where
    b: "base_mod_probs_init (num_states cfg) (base_prob_offsets cfg) (reads s ! r) = (probs, err)"
    by (cases "base_mod_probs_init (num_states cfg) (base_prob_offsets cfg) (reads s ! r)")
  show ?thesis
  proof (cases err)
    case None
    with assms b show ?thesis
      by (simp add: runner_init_read_def Let_def runner_effect_def) (auto simp: runner_effect_def)
  next
    case (Some e)
    with assms b show ?thesis by (simp add: runner_init_read_def Let_def)
  qed
qed

lemma runner_effect_generate:
  "runner_effect i (R_generate r (Suc c)) s (runner_generate_chunks cfg i r c s)"
  by (simp add: runner_effect_def runner_generate_chunks_def Let_def)

lemma runner_effect_finish: "runner_effect i R_pop s (runner_finish_read i r s)"
  by (simp add: runner_effect_def runner_finish_read_def)

lemma runner_worker_step_frame:
  assumes "runner_worker_step cfg i s = Next s'"
  shows "i < length (runner_pc s) \<and> runner_pc s ! i \<noteq> R_exited \<and> (\<exists>pc'. runner_effect i pc' s s')"
proof -
  have i: "i < length (runner_pc s)"
    using assms by (simp add: runner_worker_step_def split: if_splits)
  have "runner_pc s ! i \<noteq> R_exited \<and> (\<exists>pc'. runner_effect i pc' s s')"
  proof (cases "runner_pc s ! i")
    case R_pop
    show ?thesis
    proof (cases "items (work_queue s)")
      case Nil
      with assms i R_pop have "s' = runner_exit i s"
        by (simp add: runner_worker_step_def try_pop_def split: if_splits)
      then have "\<exists>pc'. runner_effect i pc' s s'" using runner_effect_exit by blast
      then show ?thesis using R_pop by simp
    next
      case (Cons r rest)
      with assms i R_pop have
        "s' = s\<lparr>work_queue := (work_queue s)\<lparr>items := rest\<rparr>,
                runner_pc := (runner_pc s)[i := R_wait_queues r]\<rparr>"
        by (simp add: runner_worker_step_def try_pop_def)
      then have "\<exists>pc'. runner_effect i pc' s s'" using runner_effect_pop by blast
      then show ?thesis using R_pop by simp
    qed
  next
    case (R_wait_queues r)
    with assms i have "runner_init_read cfg i r s = Next s'"
      by (simp add: runner_worker_step_def split: if_splits)
    then have "\<exists>pc'. runner_effect i pc' s s'" using runner_effect_init by blast
    then show ?thesis using R_wait_queues by simp
  next
    case (R_generate r c)
    with assms i have
      "s' = runner_generate_chunks cfg i r c s \<or> s' = runner_finish_read i r s"
      by (simp add: runner_worker_step_def split: if_splits)
    then have "\<exists>pc'. runner_effect i pc' s s'"
      using runner_effect_generate runner_effect_finish by blast
    then show ?thesis using R_generate by simp
  next
    case R_exited
    with assms i show ?thesis by (simp add: runner_worker_step_def)
  qed
  with i show ?thesis by simp
qed

lemma shutdown_invD:
  assumes "shutdown_inv cfg s"
  shows "length (caller_exited s) = num_callers cfg"
    and "length (batched_chunks s) = num_callers cfg"
    and "length (chunk_queues s) = num_models cfg"
    and "num_active_model_callers s = int (length (filter Not (caller_exited s)))"
    and "num_active_model_runners s = int (length (filter (\<lambda>pc. pc \<noteq> R_exited) (runner_pc s)))"
    and "terminate_callers s \<Longrightarrow> num_active_model_runners s = 0"
    and "terminate_output s \<Longrightarrow> num_active_model_callers s = 0"
    and "c < num_callers cfg \<Longrightarrow> caller_exited s ! c \<Longrightarrow>
           batched_chunks s ! c = [] \<and> terminate_callers s
           \<and> chunk_queues s ! (c mod num_models cfg) = []"
    and "sink_terminated s \<Longrightarrow>
           terminate_output s \<and> processed_chunks s = [] \<and> output_pc s = O_exited"
    and "terminate_output s \<Longrightarrow> terminate_callers s"
  using assms unfolding shutdown_inv_def by blast+

lemma shutdown_invI:
  assumes "length (caller_exited s) = num_callers cfg"
    and "length (batched_chunks s) = num_callers cfg"
    and "length (chunk_queues s) = num_models cfg"
    and "num_active_model_callers s = int (length (filter Not (caller_exited s)))"
    and "num_active_model_runners s = int (length (filter (\<lambda>pc. pc \<noteq> R_exited) (runner_pc s)))"
    and "terminate_callers s \<longrightarrow> num_active_model_runners s = 0"
    and "terminate_output s \<longrightarrow> num_active_model_callers s = 0"
    and "\<forall>c < num_callers cfg. caller_exited s ! c \<longrightarrow>
           batched_chunks s ! c = [] \<and> terminate_callers s
           \<and> chunk_queues s ! (c mod num_models cfg) = []"
    and "sink_terminated s \<longrightarrow>
           terminate_output s \<and> processed_chunks s = [] \<and> output_pc s = O_exited"
    and "terminate_output s \<longrightarrow> terminate_callers s"
  shows "shutdown_inv cfg s"
  using assms unfolding shutdown_inv_def by blast

lemma shutdown_inv_runner:
  assumes st: "runner_worker_step cfg i s = Next s'" and inv: "shutdown_inv cfg s"
  shows "shutdown_inv cfg s'"
proof -
  let ?P = "\<lambda>pc. pc \<noteq> R_exited"
  from runner_worker_step_frame [OF st] obtain pc' where
    i: "i < length (runner_pc s)" and run: "runner_pc s ! i \<noteq> R_exited"
    and eff: "runner_effect i pc' s s'"
    by blast
  from eff have
    same: "caller_exited s' = caller_exited s" "batched_chunks s' = batched_chunks s"
      "processed_chunks s' = processed_chunks s"
      "num_active_model_callers s' = num_active_model_callers s"
      "terminate_output s' = terminate_output s" "sink_terminated s' = sink_terminated s"
      "output_pc s' = output_pc s"
    and lq: "length (chunk_queues s') = length (chunk_queues s)"
    and pc: "runner_pc s' = (runner_pc s)[i := pc']"
    by (simp_all add: runner_effect_def)
  have cnt: "length (filter ?P (runner_pc s')) + 1
      = length (filter ?P (runner_pc s)) + (if pc' = R_exited then 0 else 1)"
    using length_filter_update [OF i, of ?P pc'] run pc by simp
  note D = shutdown_invD [OF inv]
  have act: "num_active_model_runners s = int (length (filter ?P (runner_pc s)))"
    by (rule D(5))
  have "runner_pc s ! i \<in> set (filter ?P (runner_pc s))" using i run by simp
  then have pos: "0 < length (filter ?P (runner_pc s))" by (rule length_pos_if_in_set)
  have nt: "\<not> terminate_callers s"
  proof
    assume "terminate_callers s"
    then have "num_active_model_runners s = 0" by (rule D(6))
    then show False using act pos by simp
  qed
  have none: "\<forall>c < num_callers cfg. \<not> caller_exited s ! c"
    using D(8) nt by blast
  have act': "num_active_model_runners s' = int (length (filter ?P (runner_pc s')))"
  proof (cases "pc' = R_exited")
    case True
    then have "num_active_model_runners s' = num_active_model_runners s - 1"
      using eff by (simp add: runner_effect_def)
    then show ?thesis using cnt act True by simp
  next
    case False
    then have "num_active_model_runners s' = num_active_model_runners s"
      using eff by (simp add: runner_effect_def)
    then show ?thesis using cnt act False by simp
  qed
  have tc': "terminate_callers s' \<longrightarrow> num_active_model_runners s' = 0"
  proof (cases "pc' = R_exited")
    case True
    then have "terminate_callers s' = (terminate_callers s \<or> num_active_model_runners s = 1)"
      and "num_active_model_runners s' = num_active_model_runners s - 1"
      using eff by (simp_all add: runner_effect_def)
    then show ?thesis using nt by simp
  next
    case False
    then have "terminate_callers s' = terminate_callers s"
      using eff by (simp add: runner_effect_def)
    then show ?thesis using nt by simp
  qed
  have a: "length (caller_exited s') = num_callers cfg"
    and b: "length (batched_chunks s') = num_callers cfg"
    and c: "length (chunk_queues s') = num_models cfg"
    and d: "num_active_model_callers s' = int (length (filter Not (caller_exited s')))"
    and e: "terminate_output s' \<longrightarrow> num_active_model_callers s' = 0"
    and f: "sink_terminated s' \<longrightarrow>
              terminate_output s' \<and> processed_chunks s' = [] \<and> output_pc s' = O_exited"
    using D(1,2,3,4,7,9) unfolding same lq by simp_all
  have g: "\<forall>c < num_callers cfg. caller_exited s' ! c \<longrightarrow>
             batched_chunks s' ! c = [] \<and> terminate_callers s'
             \<and> chunk_queues s' ! (c mod num_models cfg) = []"
    using none same(1) by simp
  have "\<not> terminate_output s" using D(10) nt by blast
  then have h: "terminate_output s' \<longrightarrow> terminate_callers s'" using same(5) by simp
  show ?thesis
    by (rule shutdown_invI [OF a b c d act' tc' e g f h])
qed

lemma caller_effect_refl: "caller_effect cfg c False s s"
  by (simp add: caller_effect_def)

lemma call_current_batch_Next:
  assumes "call_current_batch c results s = Next s'"
  shows "s' = s\<lparr>processed_chunks := put_results results 0 (batched_chunks s ! c) (processed_chunks s),
                 batched_chunks := (batched_chunks s)[c := []]\<rparr>"
  using assms by (simp add: call_current_batch_def Let_def split: if_splits)

lemma caller_effect_score:
  assumes "call_current_batch c results s = Next s'"
  shows "caller_effect cfg c False s s'"
  unfolding call_current_batch_Next [OF assms] by (simp add: caller_effect_def)

lemma caller_effect_take:
  assumes "chunk_queues s ! qid \<noteq> []"
  shows "caller_effect cfg c False s
           (s\<lparr>chunk_queues := (chunk_queues s)[qid := queue'],
              batched_chunks := (batched_chunks s)[c := batched'],
              last_chunk_reserve_time := reserve_times\<rparr>)"
proof -
  have "\<forall>q. chunk_queues s ! q = [] \<longrightarrow> (chunk_queues s)[qid := queue'] ! q = []"
    using assms by (metis nth_list_update_neq)
  then show ?thesis by (simp add: caller_effect_def)
qed

lemma caller_effect_trans:
  assumes "caller_effect cfg c False s s1" and "caller_effect cfg c False s1 s2"
  shows "caller_effect cfg c False s s2"
  using assms unfolding caller_effect_def by simp

lemma caller_effect_exit:
  assumes "caller_effect cfg c False s s1" and "batched_chunks s1 ! c = []"
    and "terminate_callers s" and "chunk_queues s ! (c mod num_models cfg) = []"
  shows "caller_effect cfg c True s (caller_exit c s1)"
  using assms unfolding caller_effect_def by (simp add: caller_exit_def Let_def)

lemma caller_worker_iteration_frame:
  assumes st: "caller_worker_iteration cfg c now results s = Next s'"
    and len: "length (batched_chunks s) = num_callers cfg"
  shows "c < num_callers cfg \<and> c < length (caller_exited s) \<and> \<not> caller_exited s ! c
       \<and> (\<exists>exits. caller_effect cfg c exits s s')"
proof -
  let ?qid = "c mod num_models cfg"
  let ?queue = "chunk_queues s ! ?qid"
  let ?batched = "batched_chunks s ! c"
  have run: "c < num_callers cfg" "c < length (caller_exited s)" "\<not> caller_exited s ! c"
    and nm: "num_models cfg \<noteq> 0"
    using st by (auto simp: caller_worker_iteration_def split: if_splits)
  have "\<exists>exits. caller_effect cfg c exits s s'"
  proof (cases "?queue \<noteq> [] \<or> terminate_callers s")
    case False
    with st run nm have "s' = s \<or> call_current_batch c results s = Next s'"
      by (auto simp: caller_worker_iteration_def Let_def split: if_splits)
    then show ?thesis using caller_effect_refl caller_effect_score by blast
  next
    case pred: True
    show ?thesis
    proof (cases "?queue = [] \<and> terminate_callers s")
      case True
      show ?thesis
      proof (cases "?batched = []")
        case e: True
        with st run nm True have "s' = caller_exit c s"
          by (simp add: caller_worker_iteration_def Let_def)
        moreover have "caller_effect cfg c True s (caller_exit c s)"
          using caller_effect_exit [OF caller_effect_refl] e True by simp
        ultimately show ?thesis by blast
      next
        case ne: False
        with st run nm True obtain s1 where
          s1: "call_current_batch c results s = Next s1" and s': "s' = caller_exit c s1"
          by (auto simp: caller_worker_iteration_def Let_def split: outcome.splits)
        have "batched_chunks s1 ! c = []"
          unfolding call_current_batch_Next [OF s1] using run(1) len by simp
        then have "caller_effect cfg c True s (caller_exit c s1)"
          using caller_effect_exit [OF caller_effect_score [OF s1]] True by simp
        then show ?thesis using s' by blast
      qed
    next
      case False
      then have q: "?queue \<noteq> []" using pred by blast
      obtain batched' queue' where
        pc: "push_chunks (batch_size cfg) ?batched ?queue = (batched', queue')"
        by (cases "push_chunks (batch_size cfg) ?batched ?queue")
      define s1 where
        "s1 = s\<lparr>chunk_queues := (chunk_queues s)[?qid := queue'],
                batched_chunks := (batched_chunks s)[c := batched'],
                last_chunk_reserve_time :=
                  (if length batched' \<noteq> length ?batched
                   then (last_chunk_reserve_time s)[c := now]
                   else last_chunk_reserve_time s)\<rparr>"
      have e1: "caller_effect cfg c False s s1"
        unfolding s1_def by (rule caller_effect_take [OF q])
      have "s' = s1 \<or> call_current_batch c results s1 = Next s'"
        using st run nm q pc unfolding caller_worker_iteration_def Let_def s1_def
        by (simp split: if_splits)
      then have "caller_effect cfg c False s s'"
        using e1 caller_effect_trans [OF e1 caller_effect_score] by blast
      then show ?thesis by blast
    qed
  qed
  with run show ?thesis by simp
qed

lemma shutdown_inv_caller:
  assumes st: "caller_worker_iteration cfg c now results s = Next s'" and inv: "shutdown_inv cfg s"
  shows "shutdown_inv cfg s'"
proof -
  note D = shutdown_invD [OF inv]
  from caller_worker_iteration_frame [OF st D(2)] obtain exits where
    c: "c < num_callers cfg" "c < length (caller_exited s)" and run: "\<not> caller_exited s ! c"
    and eff: "caller_effect cfg c exits s s'"
    by blast
  from eff have
    same: "runner_pc s' = runner_pc s" "num_active_model_runners s' = num_active_model_runners s"
      "terminate_callers s' = terminate_callers s" "sink_terminated s' = sink_terminated s"
      "output_pc s' = output_pc s"
    and lb: "length (batched_chunks s') = length (batched_chunks s)"
    and lq: "length (chunk_queues s') = length (chunk_queues s)"
    and others: "\<And>c'. c' \<noteq> c \<Longrightarrow> batched_chunks s' ! c' = batched_chunks s ! c'"
    and empty: "\<And>q. chunk_queues s ! q = [] \<Longrightarrow> chunk_queues s' ! q = []"
    by (simp_all add: caller_effect_def)
  have "caller_exited s ! c \<in> set (caller_exited s)" using c(2) by (rule nth_mem)
  then have "caller_exited s ! c \<in> set (filter Not (caller_exited s))" using run by simp
  then have pos: "0 < length (filter Not (caller_exited s))" by (rule length_pos_if_in_set)
  then have act: "0 < num_active_model_callers s" using D(4) by simp
  have nto: "\<not> terminate_output s" using D(7) act by auto
  then have nst: "\<not> sink_terminated s" using D(9) by auto
  have f: "sink_terminated s' \<longrightarrow>
             terminate_output s' \<and> processed_chunks s' = [] \<and> output_pc s' = O_exited"
    using nst same(4) by simp
  have b: "length (batched_chunks s') = num_callers cfg" using lb D(2) by simp
  have q: "length (chunk_queues s') = num_models cfg" using lq D(3) by simp
  have r: "num_active_model_runners s' = int (length (filter (\<lambda>pc. pc \<noteq> R_exited) (runner_pc s')))"
    using D(5) same by simp
  have tc: "terminate_callers s' \<longrightarrow> num_active_model_runners s' = 0"
    using D(6) same by simp
  have old: "batched_chunks s' ! c' = [] \<and> terminate_callers s'
      \<and> chunk_queues s' ! (c' mod num_models cfg) = []"
    if "c' < num_callers cfg" "caller_exited s ! c'" for c'
  proof -
    have "c' \<noteq> c" using that(2) run by auto
    then show ?thesis using D(8) [OF that] others empty same(3) by simp
  qed
  show ?thesis
  proof (cases exits)
    case False
    then have e: "caller_exited s' = caller_exited s"
      "num_active_model_callers s' = num_active_model_callers s"
      "terminate_output s' = terminate_output s"
      using eff by (simp_all add: caller_effect_def)
    have g: "\<forall>c' < num_callers cfg. caller_exited s' ! c' \<longrightarrow>
        batched_chunks s' ! c' = [] \<and> terminate_callers s'
        \<and> chunk_queues s' ! (c' mod num_models cfg) = []"
      using old e(1) by simp
    have h: "terminate_output s' \<longrightarrow> terminate_callers s'"
      using D(10) e(3) same(3) by simp
    show ?thesis
      using D(1,4,7) b q r tc g f h unfolding e [symmetric] by (intro shutdown_invI) simp_all
  next
    case True
    then have e: "caller_exited s' = (caller_exited s)[c := True]"
      "num_active_model_callers s' = num_active_model_callers s - 1"
      "terminate_output s' = (terminate_output s \<or> num_active_model_callers s = 1)"
      "batched_chunks s' ! c = []" "terminate_callers s"
      "chunk_queues s ! (c mod num_models cfg) = []"
      using eff by (simp_all add: caller_effect_def)
    have a: "length (caller_exited s') = num_callers cfg" using e(1) D(1) by simp
    have "length (filter Not (caller_exited s')) + 1 = length (filter Not (caller_exited s))"
      using length_filter_update [OF c(2), of Not True] run e(1) by simp
    then have d: "num_active_model_callers s' = int (length (filter Not (caller_exited s')))"
      using e(2) D(4) by simp
    have t: "terminate_output s' \<longrightarrow> num_active_model_callers s' = 0"
      using e(2,3) nto by simp
    have g: "\<forall>c' < num_callers cfg. caller_exited s' ! c' \<longrightarrow>
        batched_chunks s' ! c' = [] \<and> terminate_callers s'
        \<and> chunk_queues s' ! (c' mod num_models cfg) = []"
    proof (intro allI impI)
      fix c' assume c': "c' < num_callers cfg" and ex: "caller_exited s' ! c'"
      show "batched_chunks s' ! c' = [] \<and> terminate_callers s'
          \<and> chunk_queues s' ! (c' mod num_models cfg) = []"
      proof (cases "c' = c")
        case True
        then show ?thesis using e(4,5,6) empty same(3) by simp
      next
        case False
        then have "caller_exited s ! c'" using ex e(1) by simp
        then show ?thesis using old c' by simp
      qed
    qed
    have h: "terminate_output s' \<longrightarrow> terminate_callers s'"
      using e(5) same(3) by simp
    show ?thesis by (rule shutdown_invI [OF a b q d r tc t g f h])
  qed
qed

lemma shutdown_inv_step:
  assumes "step cfg e s = Next s'" and "shutdown_inv cfg s"
  shows "shutdown_inv cfg s'"
proof (cases e)
  case (Push_message sequence)
  then show ?thesis using assms shutdown_inv_environment(1) by (simp add: step_def)
next
  case Terminate
  then show ?thesis using assms shutdown_inv_environment(2) by (auto simp: step_def)
next
  case (Runner i)
  then show ?thesis using assms shutdown_inv_runner by (simp add: step_def)
next
  case (Caller c now results)
  then show ?thesis using assms shutdown_inv_caller by (simp add: step_def)
next
  case Output
  then show ?thesis using assms shutdown_inv_output by (simp add: step_def)
qed

lemma reachable_shutdown_inv: "reachable cfg s \<Longrightarrow> shutdown_inv cfg s"
  by (induction rule: reachable.induct) (auto intro: shutdown_inv_initial shutdown_inv_step)




section \<open>The size of a held batch\<close>

lemma caller_batch_below:
  assumes st: "caller_worker_iteration cfg c now results s = Next s'"
    and len: "length (batched_chunks s) = num_callers cfg"
    and below: "length (batched_chunks s ! c) < batch_size cfg"
  shows "length (batched_chunks s' ! c) < batch_size cfg"
proof -
  let ?qid = "c mod num_models cfg"
  let ?queue = "chunk_queues s ! ?qid"
  let ?batched = "batched_chunks s ! c"
  have run: "c < num_callers cfg" "c < length (caller_exited s)" "\<not> caller_exited s ! c"
    and nm: "num_models cfg \<noteq> 0"
    using st by (auto simp: caller_worker_iteration_def split: if_splits)
  have c: "c < length (batched_chunks s)" using run(1) len by simp
  have pos: "0 < batch_size cfg" using below by simp
  have scored: "length (batched_chunks t' ! c) < batch_size cfg"
    if "call_current_batch c results t = Next t'" "c < length (batched_chunks t)" for t t'
    unfolding call_current_batch_Next [OF that(1)] using that(2) pos by simp
  show ?thesis
  proof (cases "?queue \<noteq> [] \<or> terminate_callers s")
    case False
    with st run nm have "s' = s \<or> call_current_batch c results s = Next s'"
      by (auto simp: caller_worker_iteration_def Let_def split: if_splits)
    then show ?thesis using below scored c by blast
  next
    case pred: True
    show ?thesis
    proof (cases "?queue = [] \<and> terminate_callers s")
      case True
      show ?thesis
      proof (cases "?batched = []")
        case e: True
        with st run nm True have "s' = caller_exit c s"
          by (simp add: caller_worker_iteration_def Let_def)
        then show ?thesis using below by (simp add: caller_exit_def Let_def)
      next
        case ne: False
        with st run nm True obtain s1 where
          s1: "call_current_batch c results s = Next s1" and s': "s' = caller_exit c s1"
          by (auto simp: caller_worker_iteration_def Let_def split: outcome.splits)
        show ?thesis using scored [OF s1 c] s' by (simp add: caller_exit_def Let_def)
      qed
    next
      case False
      then have q: "?queue \<noteq> []" using pred by blast
      obtain batched' queue' where
        pc: "push_chunks (batch_size cfg) ?batched ?queue = (batched', queue')"
        by (cases "push_chunks (batch_size cfg) ?batched ?queue")
      have "batched' = ?batched @ take (batch_size cfg - length ?batched) ?queue"
        using push_chunks_eq [of ?batched "batch_size cfg" ?queue] pc below by simp
      then have le: "length batched' \<le> batch_size cfg" using below by simp
      define s1 where
        "s1 = s\<lparr>chunk_queues := (chunk_queues s)[?qid := queue'],
                batched_chunks := (batched_chunks s)[c := batched'],
                last_chunk_reserve_time :=
                  (if length batched' \<noteq> length ?batched
                   then (last_chunk_reserve_time s)[c := now]
                   else last_chunk_reserve_time s)\<rparr>"
      have b1: "batched_chunks s1 ! c = batched'" and c1: "c < length (batched_chunks s1)"
        using c by (simp_all add: s1_def)
      have "(length batched' \<noteq> batch_size cfg \<and> s' = s1)
          \<or> call_current_batch c results s1 = Next s'"
        using st run nm q pc unfolding caller_worker_iteration_def Let_def s1_def
        by (simp split: if_splits)
      then show ?thesis
      proof
        assume "length batched' \<noteq> batch_size cfg \<and> s' = s1"
        then show ?thesis using le b1 by simp
      next
        assume "call_current_batch c results s1 = Next s'"
        then show ?thesis using scored c1 by blast
      qed
    qed
  qed
qed

text \<open>
  With a positive batch size, between two passes of its caller a batch is never full:
  a full batch is scored in the pass that fills it.
\<close>

lemma batch_below_capacity:
  assumes "reachable cfg s" and "0 < batch_size cfg"
  shows "\<forall>c < num_callers cfg. length (batched_chunks s ! c) < batch_size cfg"
  using assms(1)
proof (induction rule: reachable.induct)
  case reachable_initial
  show ?case using assms(2) by (simp add: initial_node_def)
next
  case (reachable_step s e s')
  note len = shutdown_invD(2) [OF reachable_shutdown_inv [OF reachable_step.hyps(1)]]
  show ?case
  proof (cases e)
    case (Push_message sequence)
    then have "batched_chunks s' = batched_chunks s"
      using reachable_step.hyps(2)
      by (auto simp: step_def push_message_def push_def split: if_splits)
    then show ?thesis using reachable_step.IH by simp
  next
    case Terminate
    then have "batched_chunks s' = batched_chunks s"
      using reachable_step.hyps(2) by (auto simp: step_def)
    then show ?thesis using reachable_step.IH by simp
  next
    case (Runner i)
    then have "runner_worker_step cfg i s = Next s'"
      using reachable_step.hyps(2) by (simp add: step_def)
    from runner_worker_step_frame [OF this] have "batched_chunks s' = batched_chunks s"
      by (auto simp: runner_effect_def)
    then show ?thesis using reachable_step.IH by simp
  next
    case (Caller c0 now results)
    then have it: "caller_worker_iteration cfg c0 now results s = Next s'"
      using reachable_step.hyps(2) by (simp add: step_def)
    from caller_worker_iteration_frame [OF it len] obtain exits where
      c0: "c0 < num_callers cfg" and eff: "caller_effect cfg c0 exits s s'"
      by blast
    show ?thesis
    proof (intro allI impI)
      fix c assume c: "c < num_callers cfg"
      show "length (batched_chunks s' ! c) < batch_size cfg"
      proof (cases "c = c0")
        case True
        then show ?thesis
          using caller_batch_below [OF it len] reachable_step.IH c0 by simp
      next
        case False
        then have "batched_chunks s' ! c = batched_chunks s ! c"
          using eff by (simp add: caller_effect_def)
        then show ?thesis using reachable_step.IH c by simp
      qed
    qed
  next
    case Output
    then have "output_worker_step cfg s = Next s'"
      using reachable_step.hyps(2) by (simp add: step_def)
    from output_worker_step_cases [OF this] have "batched_chunks s' = batched_chunks s"
      by (elim disjE conjE exE) simp_all
    then show ?thesis using reachable_step.IH by simp
  qed
qed

section \<open>What the initialisation of a buffer stores\<close>

lemma init_canonical_valid:
  assumes l4: "length offsets = 4" and lt: "\<forall>b < 4. offsets ! b < n"
  shows "\<forall>c \<in> set cs. 0 \<le> BASE_IDS c \<Longrightarrow> (i + length cs) * n \<le> length probs \<Longrightarrow>
         \<exists>probs'. init_canonical n offsets cs i probs = (probs', None)
           \<and> length probs' = length probs
           \<and> (\<forall>j < length cs. probs' ! ((i + j) * n + offsets ! nat (BASE_IDS (cs ! j))) = 1)
           \<and> (\<forall>k. (\<forall>j < length cs. k \<noteq> (i + j) * n + offsets ! nat (BASE_IDS (cs ! j)))
                  \<longrightarrow> probs' ! k = probs ! k)"
proof (induction cs arbitrary: i probs)
  case Nil
  then show ?case by simp
next
  case (Cons x cs)
  let ?idx = "i * n + offsets ! nat (BASE_IDS x)"
  let ?p1 = "probs[?idx := 1]"
  have v: "\<not> BASE_IDS x < 0" using Cons.prems(1) by simp
  then have b4: "nat (BASE_IDS x) < 4" using BASE_IDS_range(1) [of x] by simp
  then have off: "offsets ! nat (BASE_IDS x) < n" using lt by simp
  then have "?idx < Suc i * n" by simp
  also have "\<dots> \<le> (i + length (x # cs)) * n" by (intro mult_le_mono1) simp
  finally have inb: "?idx < length probs" using Cons.prems(2) by simp
  have "\<forall>c \<in> set cs. 0 \<le> BASE_IDS c" using Cons.prems(1) by simp
  moreover have "(Suc i + length cs) * n \<le> length ?p1" using Cons.prems(2) by simp
  ultimately obtain probs' where
    r: "init_canonical n offsets cs (Suc i) ?p1 = (probs', None)"
    and len: "length probs' = length ?p1"
    and ones: "\<forall>j < length cs. probs' ! ((Suc i + j) * n + offsets ! nat (BASE_IDS (cs ! j))) = 1"
    and rest: "\<forall>k. (\<forall>j < length cs. k \<noteq> (Suc i + j) * n + offsets ! nat (BASE_IDS (cs ! j)))
                  \<longrightarrow> probs' ! k = ?p1 ! k"
    using Cons.IH [of "Suc i" ?p1] by blast
  have run: "init_canonical n offsets (x # cs) i probs = (probs', None)"
    using v inb r by (simp add: Let_def)
  have later: "?idx \<noteq> (Suc i + j) * n + offsets ! nat (BASE_IDS (cs ! j))" for j
  proof -
    have "?idx < Suc i * n" using off by simp
    also have "\<dots> \<le> (Suc i + j) * n" by (intro mult_le_mono1) simp
    finally show ?thesis by simp
  qed
  have ones': "\<forall>j < length (x # cs).
      probs' ! ((i + j) * n + offsets ! nat (BASE_IDS ((x # cs) ! j))) = 1"
  proof (intro allI impI)
    fix j assume j: "j < length (x # cs)"
    show "probs' ! ((i + j) * n + offsets ! nat (BASE_IDS ((x # cs) ! j))) = 1"
    proof (cases j)
      case 0
      have "probs' ! ?idx = ?p1 ! ?idx" using rest later by blast
      then show ?thesis using 0 inb by simp
    next
      case (Suc j')
      then show ?thesis using ones j by simp
    qed
  qed
  have rest': "\<forall>k. (\<forall>j < length (x # cs).
      k \<noteq> (i + j) * n + offsets ! nat (BASE_IDS ((x # cs) ! j))) \<longrightarrow> probs' ! k = probs ! k"
  proof (intro allI impI)
    fix k assume k: "\<forall>j < length (x # cs).
      k \<noteq> (i + j) * n + offsets ! nat (BASE_IDS ((x # cs) ! j))"
    have k0: "k \<noteq> ?idx" using k [rule_format, of 0] by simp
    have "\<forall>j < length cs. k \<noteq> (Suc i + j) * n + offsets ! nat (BASE_IDS (cs ! j))"
    proof (intro allI impI)
      fix j assume "j < length cs"
      then show "k \<noteq> (Suc i + j) * n + offsets ! nat (BASE_IDS (cs ! j))"
        using k [rule_format, of "Suc j"] by simp
    qed
    then have "probs' ! k = ?p1 ! k" using rest by blast
    then show "probs' ! k = probs ! k" using k0 by simp
  qed
  show ?case using run len ones' rest' by simp
qed

text \<open>
  For a read over \<open>{A, C, G, T}\<close> that arrives with an empty buffer, on a node built by
  the constructor: the buffer gets \<open>length of the sequence * num_states\<close> bytes, the
  byte 1 at the canonical class of each position and the byte 0 everywhere else.
\<close>

lemma base_mod_probs_init_default:
  assumes "ModBaseCallerNode ps hits n_threads n_devices n_batch n_reads n0 = Inr (cfg, s0)"
    and "4 \<le> n0" and "base_mod_probs read = []" and "\<forall>c \<in> set (seq read). 0 \<le> BASE_IDS c"
  shows "\<exists>probs. base_mod_probs_init (num_states cfg) (base_prob_offsets cfg) read = (probs, None)
           \<and> length probs = length (seq read) * num_states cfg
           \<and> (\<forall>j < length (seq read). \<forall>k < num_states cfg.
                 probs ! (j * num_states cfg + k)
                   = (if k = base_prob_offsets cfg ! nat (BASE_IDS (seq read ! j)) then 1 else 0))"
proof -
  let ?n = "num_states cfg" and ?offs = "base_prob_offsets cfg"
  let ?zeros = "replicate (length (seq read) * ?n) (0::byte)"
  have l4: "length ?offs = 4" and lt: "\<forall>b < 4. ?offs ! b < ?n"
    using ModBaseCallerNode_layout(1,2) [OF assms(1,2)] by simp_all
  have buf: "resize (length (seq read) * ?n) 0 (base_mod_probs read) = ?zeros"
    using assms(3) by (simp add: resize_def)
  from init_canonical_valid [OF l4 lt assms(4), of 0 ?zeros] obtain probs where
    r: "init_canonical ?n ?offs (seq read) 0 ?zeros = (probs, None)"
    and len: "length probs = length ?zeros"
    and ones: "\<forall>j < length (seq read). probs ! ((0 + j) * ?n + ?offs ! nat (BASE_IDS (seq read ! j))) = 1"
    and rest: "\<forall>k. (\<forall>j < length (seq read). k \<noteq> (0 + j) * ?n + ?offs ! nat (BASE_IDS (seq read ! j)))
                  \<longrightarrow> probs ! k = ?zeros ! k"
    by auto
  have cell: "probs ! (j * ?n + k) = (if k = ?offs ! nat (BASE_IDS (seq read ! j)) then 1 else 0)"
    if j: "j < length (seq read)" and k: "k < ?n" for j k
  proof (cases "k = ?offs ! nat (BASE_IDS (seq read ! j))")
    case True
    then show ?thesis using ones j by simp
  next
    case False
    have other: "j * ?n + k \<noteq> (0 + j') * ?n + ?offs ! nat (BASE_IDS (seq read ! j'))"
      if j': "j' < length (seq read)" for j'
    proof
      assume eq: "j * ?n + k = (0 + j') * ?n + ?offs ! nat (BASE_IDS (seq read ! j'))"
      have "nat (BASE_IDS (seq read ! j')) < 4"
        using BASE_IDS_range(1) [of "seq read ! j'"] assms(4) j' by simp
      then have o: "?offs ! nat (BASE_IDS (seq read ! j')) < ?n" using lt by simp
      have "(j * ?n + k) div ?n = j" using k by simp
      moreover have "(j' * ?n + ?offs ! nat (BASE_IDS (seq read ! j'))) div ?n = j'" using o by simp
      ultimately have "j = j'" using eq by simp
      then show False using eq False by simp
    qed
    have "j * ?n + k < Suc j * ?n" using k by simp
    also have "\<dots> \<le> length (seq read) * ?n" using j by (intro mult_le_mono1) simp
    finally have "j * ?n + k < length ?zeros" by simp
    then have "?zeros ! (j * ?n + k) = 0" by (simp del: replicate_eq_replicate)
    moreover have "probs ! (j * ?n + k) = ?zeros ! (j * ?n + k)" using rest other by blast
    ultimately show ?thesis using False by simp
  qed
  show ?thesis
    using r len cell by (simp add: base_mod_probs_init_def buf)
qed

text \<open>
  C2. The buffer has the claimed size and layout, and the default is written before
  any chunk of the read is enqueued (the action that initialises the buffer precedes
  the passes that enqueue). But the value is not in the encoding of the chunk writes:
  for the read \<^verbatim>\<open>"C"\<close> with five classes per position, the initialised buffer holds
  the byte 1 at the canonical class of \<open>C\<close> and 0 elsewhere; in the encoding of the
  chunk writes the byte 1 stands for the probability \<open>1/256\<close>, and probability 1 is the
  byte 255.
\<close>

theorem C2_default_is_byte_one:
  "base_mod_probs_init 5 [0, 1, 3, 4]
     \<lparr>seq = ''C'', base_mod_probs = [], num_modbase_chunks = 0, num_modbase_chunks_called = 0\<rparr>
     = ([0, 1, 0, 0, 0], None)
   \<and> quantise_score 1 = Some 255
   \<and> quantise_score (1 / 256) = Some 1"
  by (simp add: base_mod_probs_init_def resize_def BASE_IDS_def quantise_score_def
        eval_nat_numeral)

section \<open>Forwarding a read\<close>

lemma forward_completed_filter:
  "forward_completed rs working =
     (filter (\<lambda>r. num_modbase_chunks_called (rs ! r) \<noteq> num_modbase_chunks (rs ! r)) working,
      filter (\<lambda>r. num_modbase_chunks_called (rs ! r) = num_modbase_chunks (rs ! r)) working)"
  by (induction working) auto

lemma mset_forward_completed:
  "mset (fst (forward_completed rs working)) + mset (snd (forward_completed rs working))
     = mset working"
  by (induction working) (auto simp: forward_completed_filter)

lemma mset_held_update:
  "i < length pcs \<Longrightarrow>
     mset (concat (map held_read (pcs[i := pc']))) + mset (held_read (pcs ! i))
       = mset (concat (map held_read pcs)) + mset (held_read pc')"
proof (induction pcs arbitrary: i)
  case Nil
  then show ?case by simp
next
  case (Cons pc pcs)
  show ?case
  proof (cases i)
    case 0
    then show ?thesis by simp
  next
    case (Suc j)
    then have "j < length pcs" using Cons.prems by simp
    from Cons.IH [OF this] Suc show ?thesis by (simp add: ac_simps)
  qed
qed

lemma apply_chunks_length:
  "apply_chunks cfg chunks rs = Inr rs' \<Longrightarrow> length rs' = length rs"
proof (induction chunks arbitrary: rs)
  case Nil
  then show ?case by simp
next
  case (Cons chunk chunks)
  from Cons.prems obtain rs1 where
    "apply_chunk cfg chunk rs = Inr rs1" "apply_chunks cfg chunks rs1 = Inr rs'"
    by (auto split: sum.splits)
  then show ?case using Cons.IH apply_chunk_length by fastforce
qed

lemma apply_chunks_issued:
  "apply_chunks cfg chunks rs = Inr rs' \<Longrightarrow>
     num_modbase_chunks (rs' ! r) = num_modbase_chunks (rs ! r)"
proof (induction chunks arbitrary: rs)
  case Nil
  then show ?case by simp
next
  case (Cons chunk chunks)
  from Cons.prems obtain rs1 where
    one: "apply_chunk cfg chunk rs = Inr rs1" and rest: "apply_chunks cfg chunks rs1 = Inr rs'"
    by (auto split: sum.splits)
  have "num_modbase_chunks (rs1 ! r) = num_modbase_chunks (rs ! r)"
    using apply_chunk_Inr [OF one] by (cases "r = source_read chunk") auto
  then show ?case using Cons.IH [OF rest] by simp
qed

text \<open>
  No action of a thread of the node brings a read in or takes one out, and none
  changes the number of reads in the store.
\<close>

lemma runner_read_ids:
  assumes "runner_worker_step cfg i s = Next s'"
  shows "mset (read_ids s') = mset (read_ids s) \<and> length (reads s') = length (reads s)"
proof -
  have i: "i < length (runner_pc s)"
    using assms by (simp add: runner_worker_step_def split: if_splits)
  note upd = mset_held_update [OF i]
  show ?thesis
  proof (cases "runner_pc s ! i")
    case R_pop
    show ?thesis
    proof (cases "items (work_queue s)")
      case Nil
      with assms i R_pop have "s' = runner_exit i s"
        by (simp add: runner_worker_step_def try_pop_def split: if_splits)
      then show ?thesis
        using upd [of R_exited] R_pop by (simp add: read_ids_def runner_exit_def Let_def)
    next
      case (Cons r rest)
      with assms i R_pop have
        "s' = s\<lparr>work_queue := (work_queue s)\<lparr>items := rest\<rparr>,
                runner_pc := (runner_pc s)[i := R_wait_queues r]\<rparr>"
        by (simp add: runner_worker_step_def try_pop_def)
      then show ?thesis
        using upd [of "R_wait_queues r"] R_pop Cons by (simp add: read_ids_def)
    qed
  next
    case (R_wait_queues r)
    with assms i have init: "runner_init_read cfg i r s = Next s'"
      by (simp add: runner_worker_step_def split: if_splits)
    obtain probs err where
      b: "base_mod_probs_init (num_states cfg) (base_prob_offsets cfg) (reads s ! r) = (probs, err)"
      by (cases "base_mod_probs_init (num_states cfg) (base_prob_offsets cfg) (reads s ! r)")
    have "work_queue s' = work_queue s \<and> working_reads s' = working_reads s
        \<and> sink_messages s' = sink_messages s \<and> length (reads s') = length (reads s)
        \<and> runner_pc s' = (runner_pc s)[i := R_generate r 0]"
      using init b by (cases err) (auto simp: runner_init_read_def Let_def)
    then show ?thesis
      using upd [of "R_generate r 0"] R_wait_queues by (simp add: read_ids_def)
  next
    case (R_generate r c)
    with assms i have
      "s' = runner_generate_chunks cfg i r c s \<or> s' = runner_finish_read i r s"
      by (simp add: runner_worker_step_def split: if_splits)
    then show ?thesis
    proof
      assume "s' = runner_generate_chunks cfg i r c s"
      then show ?thesis
        using upd [of "R_generate r (Suc c)"] R_generate
        by (simp add: read_ids_def runner_generate_chunks_def Let_def)
    next
      assume "s' = runner_finish_read i r s"
      then show ?thesis
        using upd [of R_pop] R_generate
        by (simp add: read_ids_def runner_finish_read_def)
    qed
  next
    case R_exited
    with assms i show ?thesis by (simp add: runner_worker_step_def)
  qed
qed

lemma caller_read_ids:
  assumes "caller_worker_iteration cfg c now results s = Next s'"
    and "length (batched_chunks s) = num_callers cfg"
  shows "read_ids s' = read_ids s \<and> reads s' = reads s"
  using caller_worker_iteration_frame [OF assms]
  by (auto simp: caller_effect_def read_ids_def)

lemma output_read_ids:
  assumes "output_worker_step cfg s = Next s'"
  shows "mset (read_ids s') = mset (read_ids s) \<and> length (reads s') = length (reads s)"
  using output_worker_step_cases [OF assms]
proof (elim disjE conjE exE)
  assume "s' = s\<lparr>sink_terminated := True, output_pc := O_exited\<rparr>"
  then show ?thesis by (simp add: read_ids_def)
next
  fix rs
  assume "apply_chunks cfg (processed_chunks s) (reads s) = Inr rs"
    and "s' = s\<lparr>reads := rs, processed_chunks := [], output_pc := O_scan\<rparr>"
  then show ?thesis using apply_chunks_length by (simp add: read_ids_def)
next
  assume "s' = s\<lparr>working_reads := fst (forward_completed (reads s) (working_reads s)),
                sink_messages := sink_messages s
                   @ snd (forward_completed (reads s) (working_reads s)),
                output_pc := O_wait\<rparr>"
  then show ?thesis
    using mset_forward_completed [of "reads s" "working_reads s"]
    by (simp add: read_ids_def ac_simps)
qed

lemma ids_inv_mset:
  assumes "ids_inv s" and "mset (read_ids s') = mset (read_ids s)"
    and "length (reads s') = length (reads s)"
  shows "ids_inv s'"
proof -
  have "distinct (read_ids s')"
    using assms(1,2) mset_eq_imp_distinct_iff [of "read_ids s'" "read_ids s"]
    by (simp add: ids_inv_def)
  moreover have "set (read_ids s') = set (read_ids s)"
    using assms(2) by (rule mset_eq_setD)
  ultimately show ?thesis using assms(1,3) by (simp add: ids_inv_def list_all_iff)
qed

lemma ids_inv_initial: "ids_inv (initial_node cfg)"
proof -
  have "concat (map held_read (replicate n R_pop)) = []" for n
    by (induction n) simp_all
  then show ?thesis
    by (simp add: ids_inv_def read_ids_def initial_node_def new_queue_def)
qed

lemma ids_inv_push_message:
  assumes "push_message sequence s = Next s'" and "ids_inv s"
  shows "ids_inv s'"
proof (cases "terminated (work_queue s)")
  case True
  then have "s' = s" using assms(1) by (simp add: push_message_def push_def)
  then show ?thesis using assms(2) by simp
next
  case False
  let ?n = "length (reads s)"
  from False assms(1) have
    s': "s' = s\<lparr>work_queue := (work_queue s)\<lparr>items := items (work_queue s) @ [?n]\<rparr>,
                  reads := reads s @ [\<lparr>seq = sequence, base_mod_probs = [],
                                       num_modbase_chunks = 0,
                                       num_modbase_chunks_called = 0\<rparr>]\<rparr>"
    by (auto simp: push_message_def push_def split: if_splits)
  have bound: "\<forall>r \<in> set (read_ids s). r < ?n"
    using assms(2) by (simp add: ids_inv_def list_all_iff)
  then have fresh: "?n \<notin> set (read_ids s)" by auto
  have m: "mset (read_ids s') = add_mset ?n (mset (read_ids s))"
    unfolding s' by (simp add: read_ids_def)
  have "distinct (read_ids s') \<longleftrightarrow> distinct (?n # read_ids s)"
    by (rule mset_eq_imp_distinct_iff) (simp add: m)
  then have d: "distinct (read_ids s')" using fresh assms(2) by (simp add: ids_inv_def)
  have "set (read_ids s') = insert ?n (set (read_ids s))"
    using m by (metis set_mset_add_mset_insert set_mset_mset)
  moreover have "length (reads s') = Suc ?n" unfolding s' by simp
  ultimately have "\<forall>r \<in> set (read_ids s'). r < length (reads s')"
    using bound by auto
  then show ?thesis using d by (simp add: ids_inv_def list_all_iff)
qed

lemma ids_inv_step:
  assumes st: "step cfg e s = Next s'" and inv: "ids_inv s" and sh: "shutdown_inv cfg s"
  shows "ids_inv s'"
proof (cases e)
  case (Push_message sequence)
  then show ?thesis using st inv ids_inv_push_message by (simp add: step_def)
next
  case Terminate
  then have "s' = s\<lparr>work_queue := terminate (work_queue s)\<rparr>" using st by (auto simp: step_def)
  then have "read_ids s' = read_ids s" "reads s' = reads s"
    by (simp_all add: read_ids_def terminate_def)
  then show ?thesis using inv by (simp add: ids_inv_def)
next
  case (Runner i)
  then have "runner_worker_step cfg i s = Next s'" using st by (simp add: step_def)
  from runner_read_ids [OF this] inv show ?thesis by (auto intro: ids_inv_mset)
next
  case (Caller c now results)
  then have "caller_worker_iteration cfg c now results s = Next s'" using st by (simp add: step_def)
  from caller_read_ids [OF this shutdown_invD(2) [OF sh]] inv
  show ?thesis by (simp add: ids_inv_def)
next
  case Output
  then have "output_worker_step cfg s = Next s'" using st by (simp add: step_def)
  from output_read_ids [OF this] inv show ?thesis by (auto intro: ids_inv_mset)
qed

lemma reachable_ids_inv: "reachable cfg s \<Longrightarrow> ids_inv s"
proof (induction rule: reachable.induct)
  case reachable_initial
  show ?case by (rule ids_inv_initial)
next
  case (reachable_step s e s')
  show ?case
    using reachable_step.hyps(2) reachable_step.IH
      reachable_shutdown_inv [OF reachable_step.hyps(1)]
    by (rule ids_inv_step)
qed

text \<open>
  In every state the node can reach, a read has been sent to the sink at most once,
  and a read that is in the working set or has been sent to the sink is in no runner's
  hands and not in the work queue: its chunks have all been issued.
\<close>

lemma forwarded_at_most_once:
  assumes "reachable cfg s"
  shows "distinct (sink_messages s)"
    and "r \<in> set (working_reads s) \<union> set (sink_messages s) \<Longrightarrow>
           r \<notin> set (concat (map held_read (runner_pc s))) \<and> r \<notin> set (items (work_queue s))
           \<and> r < length (reads s)"
    and "r \<in> set (working_reads s) \<Longrightarrow> r \<notin> set (sink_messages s)"
proof -
  have inv: "distinct (read_ids s)" "\<forall>x \<in> set (read_ids s). x < length (reads s)"
    using reachable_ids_inv [OF assms] by (simp_all add: ids_inv_def list_all_iff)
  show "distinct (sink_messages s)" using inv(1) by (simp add: read_ids_def)
  show "r \<notin> set (concat (map held_read (runner_pc s))) \<and> r \<notin> set (items (work_queue s))
           \<and> r < length (reads s)"
    if "r \<in> set (working_reads s) \<union> set (sink_messages s)"
    using inv that unfolding read_ids_def by auto
  show "r \<notin> set (sink_messages s)" if "r \<in> set (working_reads s)"
    using inv(1) that unfolding read_ids_def by auto
qed

text \<open>
  The scan of the working set sends to the sink exactly the reads whose two counters
  agree, and keeps the others.
\<close>

lemma output_scan_forwards_completed:
  assumes "output_pc s = O_scan"
  shows "\<exists>s'. output_worker_step cfg s = Next s'
           \<and> sink_messages s' = sink_messages s
                @ filter (\<lambda>r. num_modbase_chunks_called (reads s ! r)
                                = num_modbase_chunks (reads s ! r)) (working_reads s)
           \<and> working_reads s'
                = filter (\<lambda>r. num_modbase_chunks_called (reads s ! r)
                                \<noteq> num_modbase_chunks (reads s ! r)) (working_reads s)"
  using assms by (simp add: output_worker_step_def forward_completed_filter)

lemma runner_reads_other:
  assumes "runner_worker_step cfg i s = Next s'" and "r \<notin> set (held_read (runner_pc s ! i))"
  shows "reads s' ! r = reads s ! r"
proof -
  have i: "i < length (runner_pc s)"
    using assms(1) by (simp add: runner_worker_step_def split: if_splits)
  show ?thesis
  proof (cases "runner_pc s ! i")
    case R_pop
    with assms(1) i show ?thesis
      by (cases "items (work_queue s)")
         (auto simp: runner_worker_step_def try_pop_def runner_exit_def Let_def split: if_splits)
  next
    case (R_wait_queues r0)
    with assms(1) i have init: "runner_init_read cfg i r0 s = Next s'"
      by (simp add: runner_worker_step_def split: if_splits)
    obtain probs err where
      b: "base_mod_probs_init (num_states cfg) (base_prob_offsets cfg) (reads s ! r0) = (probs, err)"
      by (cases "base_mod_probs_init (num_states cfg) (base_prob_offsets cfg) (reads s ! r0)")
    have "r \<noteq> r0" using assms(2) R_wait_queues by simp
    then show ?thesis
      using init b by (cases err) (auto simp: runner_init_read_def Let_def)
  next
    case (R_generate r0 c)
    with assms(1) i have
      "s' = runner_generate_chunks cfg i r0 c s \<or> s' = runner_finish_read i r0 s"
      by (simp add: runner_worker_step_def split: if_splits)
    moreover have "r \<noteq> r0" using assms(2) R_generate by simp
    ultimately show ?thesis
      by (auto simp: runner_generate_chunks_def runner_finish_read_def Let_def)
  next
    case R_exited
    with assms(1) i show ?thesis by (simp add: runner_worker_step_def)
  qed
qed

text \<open>
  Once a read is in the working set (or has been sent to the sink) its counter of
  issued chunks has its final value: no action changes it.
\<close>

lemma issued_counter_final:
  assumes re: "reachable cfg s" and r: "r \<in> set (working_reads s) \<union> set (sink_messages s)"
    and st: "step cfg e s = Next s'"
  shows "num_modbase_chunks (reads s' ! r) = num_modbase_chunks (reads s ! r)"
proof -
  from forwarded_at_most_once(2) [OF re r] have
    held: "r \<notin> set (concat (map held_read (runner_pc s)))" and len: "r < length (reads s)"
    by simp_all
  show ?thesis
  proof (cases e)
    case (Push_message sequence)
    then have "push_message sequence s = Next s'" using st by (simp add: step_def)
    then have "reads s' ! r = reads s ! r"
      using len by (auto simp: push_message_def push_def nth_append split: if_splits)
    then show ?thesis by simp
  next
    case Terminate
    then show ?thesis using st by (auto simp: step_def)
  next
    case (Runner i)
    then have rs: "runner_worker_step cfg i s = Next s'" using st by (simp add: step_def)
    then have "i < length (runner_pc s)"
      by (simp add: runner_worker_step_def split: if_splits)
    then have "r \<notin> set (held_read (runner_pc s ! i))" using held by auto
    then show ?thesis using runner_reads_other [OF rs] by simp
  next
    case (Caller c now results)
    then have "caller_worker_iteration cfg c now results s = Next s'"
      using st by (simp add: step_def)
    from caller_read_ids [OF this shutdown_invD(2) [OF reachable_shutdown_inv [OF re]]]
    show ?thesis by simp
  next
    case Output
    then have "output_worker_step cfg s = Next s'" using st by (simp add: step_def)
    from output_worker_step_cases [OF this] show ?thesis
      by (elim disjE conjE exE) (auto simp: apply_chunks_issued)
  qed
qed

text \<open>
  C1. A read is forwarded at most once, by the scan only when its two counters
  agree, and it enters the working set only after its last chunk has been issued (the
  three lemmas above). But a read with chunks need not be forwarded at all: on the
  schedule \<open>late_insert_schedule\<close> the one chunk of the read is scored and applied (one
  chunk issued, one completed) and the working set is scanned before the runner has put
  the read in the working set; no later chunk triggers another scan, and the output
  thread terminates the sink and returns with the read still in the working set.
\<close>

theorem C1_read_left_in_working_set:
  "\<exists>s. run single_hit_config late_insert_schedule (initial_node single_hit_config) = Next s
     \<and> num_modbase_chunks (reads s ! 0) = 1
     \<and> num_modbase_chunks_called (reads s ! 0) = 1
     \<and> working_reads s = [0]
     \<and> sink_messages s = []
     \<and> sink_terminated s
     \<and> runner_pc s = [R_exited] \<and> caller_exited s = [True] \<and> output_pc s = O_exited"
  by (simp add: single_hit_config_def late_insert_schedule_def node_step_defs)

end
